theory Spec2Isabelle
  imports Complex_Main "HOL-Library.Sublist" "HOL-Library.Multiset"
begin

section \<open>The persistent state of the workflow schema\<close>

text \<open>
  The workflow layer of the repository that is present in source form is the PostgreSQL
  schema: the base table \<open>automations\<close> with its \<open>updated_at\<close> trigger
  (backend/supabase_schema.sql) and the workflow extension (the SQL part of
  unnamed/part_001): the tables \<open>workflow_events\<close> and \<open>workflow_stats\<close>, the
  functions \<open>log_workflow_event\<close>, \<open>track_stage_changes\<close> and
  \<open>update_workflow_stats\<close>, and the views.  Tables are lists of rows in insertion
  order; a key constraint is a check at the moment a row is written.

  \<open>UUID\<close> values are natural numbers, \<open>TIMESTAMP WITH TIME ZONE\<close> values are
  integers (a number of seconds), \<open>DATE\<close> values are integers (a day number),
  \<open>DECIMAL\<close> values are rationals, \<open>INTEGER\<close> values are integers checked
  against the 32 bit range when they are computed.  A nullable column is an option,
  except for columns that every writer present in the sources fills: the counters of
  \<open>workflow_stats\<close> (the only writer, \<open>update_workflow_stats\<close>, inserts
  literals and increments them) and the \<open>created_at\<close>/\<open>updated_at\<close> columns
  (always the \<open>NOW()\<close> default).  The width of a \<open>VARCHAR(n)\<close> column is not
  checked: a statement that PostgreSQL refuses for an over-long string succeeds here.
\<close>

type_synonym uuid = nat
type_synonym timestamptz = int
type_synonym date = int

datatype jsonb =
    JNull
  | JString string
  | JTimestamp timestamptz
  | JObject "(string \<times> jsonb) list"

record automation =
  au_id :: uuid
  au_title :: string
  au_stage :: string
  au_file_name :: "string option"
  au_file_url :: "string option"
  au_blob_name :: "string option"
  au_created_at :: timestamptz
  au_updated_at :: timestamptz
  au_processing_started_at :: "timestamptz option"
  au_processing_completed_at :: "timestamptz option"
  au_retry_count :: int
  au_last_error :: "string option"
  au_processing_metadata :: "jsonb option"
  au_assigned_worker :: "string option"
  au_lob :: "string option"
  au_process :: "string option"
  au_classification_status :: "string option"
  au_case_parameters :: "jsonb option"

record workflow_event =
  we_id :: uuid
  we_automation_id :: uuid
  we_event_type :: string
  we_from_stage :: "string option"
  we_to_stage :: "string option"
  we_worker_id :: "string option"
  we_metadata :: "jsonb option"
  we_error_message :: "string option"
  we_created_at :: timestamptz

record workflow_stat =
  ws_id :: uuid
  ws_stage :: string
  ws_date :: date
  ws_items_processed :: int
  ws_avg_processing_time_seconds :: "rat option"
  ws_success_count :: int
  ws_error_count :: int
  ws_created_at :: timestamptz
  ws_updated_at :: timestamptz

record db =
  automations :: "automation list"
  workflow_events :: "workflow_event list"
  workflow_stats :: "workflow_stat list"

text \<open>
  What a statement reads from its session: \<open>NOW()\<close>, \<open>CURRENT_DATE\<close> and the
  value \<open>gen_random_uuid()\<close> returns for the one row the statement inserts.
\<close>

record env =
  now :: timestamptz
  current_date :: date
  gen_random_uuid :: uuid

text \<open>The errors PostgreSQL raises in the statements below; each aborts the statement.\<close>

datatype error =
    unique_violation
  | foreign_key_violation
  | numeric_value_out_of_range
  | division_by_zero

definition ebind :: "error + 'a \<Rightarrow> ('a \<Rightarrow> error + 'b) \<Rightarrow> error + 'b" where
  "ebind m f = (case m of Inl e \<Rightarrow> Inl e | Inr x \<Rightarrow> f x)"

text \<open>An \<open>INTEGER\<close> result: outside the 32 bit range the operator raises.\<close>

definition int4 :: "int \<Rightarrow> error + int" where
  "int4 x = (if - 2147483648 \<le> x \<and> x \<le> 2147483647 then Inr x
             else Inl numeric_value_out_of_range)"

text \<open>
  A value stored in a \<open>DECIMAL(10,2)\<close> column is rounded to two decimal places, half
  away from zero, and must then have at most eight digits before the point.
\<close>

definition round_half_away :: "rat \<Rightarrow> int" where
  "round_half_away x = (if 0 \<le> x then \<lfloor>x + 1 / 2\<rfloor> else - \<lfloor>- x + 1 / 2\<rfloor>)"

definition decimal_10_2 :: "rat \<Rightarrow> error + rat" where
  "decimal_10_2 x =
     (let r = round_half_away (x * 100)
      in if \<bar>r\<bar> < 10000000000 then Inr (of_int r / 100)
         else Inl numeric_value_out_of_range)"

section \<open>log_workflow_event\<close>

text \<open>
  The function inserts one row into \<open>workflow_events\<close> and returns its id.  The
  insert fails on a primary key that exists and on an \<open>automation_id\<close> that
  references no row of \<open>automations\<close>.
\<close>

definition log_workflow_event ::
  "env \<Rightarrow> uuid \<Rightarrow> string \<Rightarrow> string option \<Rightarrow> string option \<Rightarrow> string option \<Rightarrow>
   jsonb option \<Rightarrow> string option \<Rightarrow> db \<Rightarrow> error + (uuid \<times> db)" where
  "log_workflow_event e p_automation_id p_event_type p_from_stage p_to_stage p_worker_id
     p_metadata p_error_message d =
     (let event_id = gen_random_uuid e in
      if event_id \<in> set (map we_id (workflow_events d)) then Inl unique_violation
      else if p_automation_id \<notin> set (map au_id (automations d)) then Inl foreign_key_violation
      else Inr (event_id,
        d\<lparr>workflow_events := workflow_events d @
          [\<lparr>we_id = event_id,
            we_automation_id = p_automation_id,
            we_event_type = p_event_type,
            we_from_stage = p_from_stage,
            we_to_stage = p_to_stage,
            we_worker_id = p_worker_id,
            we_metadata = p_metadata,
            we_error_message = p_error_message,
            we_created_at = now e\<rparr>]\<rparr>))"

section \<open>The triggers on automations and the UPDATE statement\<close>

text \<open>\<open>update_updated_at_column\<close>, the BEFORE UPDATE row trigger.\<close>

definition update_updated_at_column :: "env \<Rightarrow> automation \<Rightarrow> automation" where
  "update_updated_at_column e NEW = NEW\<lparr>au_updated_at := now e\<rparr>"

text \<open>
  \<open>track_stage_changes\<close>, the AFTER UPDATE row trigger.  The column \<open>stage\<close> is
  \<open>NOT NULL\<close>, so \<open>IS DISTINCT FROM\<close> is inequality.  \<open>PERFORM\<close> discards the
  returned event id; the returned \<open>NEW\<close> is ignored for an AFTER trigger.
\<close>

definition track_stage_changes :: "env \<Rightarrow> automation \<Rightarrow> automation \<Rightarrow> db \<Rightarrow> error + db" where
  "track_stage_changes e OLD NEW d =
     (if au_stage OLD \<noteq> au_stage NEW then
        ebind (log_workflow_event e (au_id NEW) ''stage_changed''
                 (Some (au_stage OLD)) (Some (au_stage NEW)) (au_assigned_worker NEW)
                 (Some (JObject [(''previous_updated_at'', JTimestamp (au_updated_at OLD)),
                                 (''new_updated_at'', JTimestamp (au_updated_at NEW))]))
                 None d)
          (\<lambda>r. Inr (snd r))
      else Inr d)"

text \<open>
  \<open>UPDATE automations SET ... WHERE id = i\<close>, the statement behind the API's
  update of an item (the pipeline page's \<open>onChangeStage\<close> sends \<open>{stage}\<close>).  The
  SET clause is a function on the row.  No row with that id: nothing happens.  Otherwise
  the BEFORE trigger runs on the new row, the row is replaced (the primary key must stay
  unique, and a key that events reference cannot change), and the AFTER trigger runs.
\<close>

fun replace_row :: "uuid \<Rightarrow> automation \<Rightarrow> automation list \<Rightarrow> automation list" where
  "replace_row i NEW [] = []"
| "replace_row i NEW (a # as) = (if au_id a = i then NEW # as else a # replace_row i NEW as)"

definition update_automations ::
  "env \<Rightarrow> uuid \<Rightarrow> (automation \<Rightarrow> automation) \<Rightarrow> db \<Rightarrow> error + db" where
  "update_automations e i set_clause d =
     (case find (\<lambda>a. au_id a = i) (automations d) of
        None \<Rightarrow> Inr d
      | Some OLD \<Rightarrow>
          (let NEW = update_updated_at_column e (set_clause OLD) in
           if au_id NEW \<noteq> au_id OLD \<and> au_id NEW \<in> set (map au_id (automations d))
           then Inl unique_violation
           else if au_id NEW \<noteq> au_id OLD
                   \<and> au_id OLD \<in> set (map we_automation_id (workflow_events d))
           then Inl foreign_key_violation
           else track_stage_changes e OLD NEW
                  (d\<lparr>automations := replace_row i NEW (automations d)\<rparr>)))"

section \<open>update_workflow_stats\<close>

text \<open>
  The SET list of the UPDATE branch.  Every right-hand side reads the row as it was
  before the statement: \<open>items_processed\<close> inside the average is the count before
  the increment.  SQL arithmetic is strict: with a NULL average the new average is NULL.
  The quotient is taken exactly before the column rounds it to two decimals; PostgreSQL
  rounds it to the scale of the division first (at least sixteen significant digits),
  so next to a rounding boundary the stored value can differ in the last digit.
\<close>

definition new_avg_processing_time :: "workflow_stat \<Rightarrow> rat option \<Rightarrow> error + rat option" where
  "new_avg_processing_time r p_processing_time_seconds =
     (case p_processing_time_seconds of
        None \<Rightarrow> Inr (ws_avg_processing_time_seconds r)
      | Some t \<Rightarrow>
          ebind (int4 (ws_items_processed r - 1)) (\<lambda>n1.
            case ws_avg_processing_time_seconds r of
              None \<Rightarrow> Inr None
            | Some a \<Rightarrow>
                if ws_items_processed r = 0 then Inl division_by_zero
                else ebind (decimal_10_2 ((a * of_int n1 + t) / of_int (ws_items_processed r)))
                       (\<lambda>v. Inr (Some v))))"

text \<open>
  The new row.  PostgreSQL evaluates the right-hand sides in the order of the columns of
  the table (\<open>items_processed\<close>, \<open>avg_processing_time_seconds\<close>,
  \<open>success_count\<close>, \<open>error_count\<close>), so that is the order in which an error
  of one of them aborts the statement.
\<close>

definition stats_set_clause ::
  "env \<Rightarrow> rat option \<Rightarrow> bool \<Rightarrow> workflow_stat \<Rightarrow> error + workflow_stat" where
  "stats_set_clause e p_processing_time_seconds p_success r =
     ebind (int4 (ws_items_processed r + 1)) (\<lambda>items.
     ebind (new_avg_processing_time r p_processing_time_seconds) (\<lambda>avg.
     ebind (int4 (ws_success_count r + (if p_success then 1 else 0))) (\<lambda>succ.
     ebind (int4 (ws_error_count r + (if p_success then 0 else 1))) (\<lambda>err.
       Inr (r\<lparr>ws_items_processed := items,
               ws_success_count := succ,
               ws_error_count := err,
               ws_avg_processing_time_seconds := avg,
               ws_updated_at := now e\<rparr>)))))"

text \<open>\<open>UPDATE ... WHERE\<close>: the SET clause on every row that matches.\<close>

fun update_where :: "('a \<Rightarrow> bool) \<Rightarrow> ('a \<Rightarrow> error + 'a) \<Rightarrow> 'a list \<Rightarrow> error + 'a list" where
  "update_where P f [] = Inr []"
| "update_where P f (r # rs) =
     (if P r
      then ebind (f r) (\<lambda>r'. ebind (update_where P f rs) (\<lambda>rs'. Inr (r' # rs')))
      else ebind (update_where P f rs) (\<lambda>rs'. Inr (r # rs')))"

definition stats_row_matches :: "string \<Rightarrow> date \<Rightarrow> workflow_stat \<Rightarrow> bool" where
  "stats_row_matches p_stage today r \<longleftrightarrow> ws_stage r = p_stage \<and> ws_date r = today"

definition insert_workflow_stats ::
  "env \<Rightarrow> string \<Rightarrow> rat option \<Rightarrow> bool \<Rightarrow> workflow_stat list \<Rightarrow> error + workflow_stat list" where
  "insert_workflow_stats e p_stage p_processing_time_seconds p_success rows =
     (if gen_random_uuid e \<in> set (map ws_id rows) then Inl unique_violation
      else if list_ex (stats_row_matches p_stage (current_date e)) rows then Inl unique_violation
      else ebind (case p_processing_time_seconds of
                    None \<Rightarrow> Inr None
                  | Some t \<Rightarrow> ebind (decimal_10_2 t) (\<lambda>v. Inr (Some v)))
             (\<lambda>avg. Inr (rows @
                [\<lparr>ws_id = gen_random_uuid e,
                  ws_stage = p_stage,
                  ws_date = current_date e,
                  ws_items_processed = 1,
                  ws_avg_processing_time_seconds = avg,
                  ws_success_count = (if p_success then 1 else 0),
                  ws_error_count = (if p_success then 0 else 1),
                  ws_created_at = now e,
                  ws_updated_at = now e\<rparr>])))"

definition update_workflow_stats :: "env \<Rightarrow> string \<Rightarrow> rat option \<Rightarrow> bool \<Rightarrow> db \<Rightarrow> error + db" where
  "update_workflow_stats e p_stage p_processing_time_seconds p_success d =
     (let today = current_date e in
      if list_ex (stats_row_matches p_stage today) (workflow_stats d)
      then ebind (update_where (stats_row_matches p_stage today)
                    (stats_set_clause e p_processing_time_seconds p_success)
                    (workflow_stats d))
             (\<lambda>rows. Inr (d\<lparr>workflow_stats := rows\<rparr>))
      else ebind (insert_workflow_stats e p_stage p_processing_time_seconds p_success
                    (workflow_stats d))
             (\<lambda>rows. Inr (d\<lparr>workflow_stats := rows\<rparr>)))"

text \<open>The row of a stage and day, and what it holds; no row counts as zero and NULL.\<close>

definition stat_row :: "db \<Rightarrow> string \<Rightarrow> date \<Rightarrow> workflow_stat option" where
  "stat_row d stage day = find (stats_row_matches stage day) (workflow_stats d)"

definition items_processed_of :: "db \<Rightarrow> string \<Rightarrow> date \<Rightarrow> int" where
  "items_processed_of d stage day =
     (case stat_row d stage day of None \<Rightarrow> 0 | Some r \<Rightarrow> ws_items_processed r)"

definition success_count_of :: "db \<Rightarrow> string \<Rightarrow> date \<Rightarrow> int" where
  "success_count_of d stage day =
     (case stat_row d stage day of None \<Rightarrow> 0 | Some r \<Rightarrow> ws_success_count r)"

definition error_count_of :: "db \<Rightarrow> string \<Rightarrow> date \<Rightarrow> int" where
  "error_count_of d stage day =
     (case stat_row d stage day of None \<Rightarrow> 0 | Some r \<Rightarrow> ws_error_count r)"

definition avg_processing_time_of :: "db \<Rightarrow> string \<Rightarrow> date \<Rightarrow> rat option" where
  "avg_processing_time_of d stage day =
     (case stat_row d stage day of None \<Rightarrow> None | Some r \<Rightarrow> ws_avg_processing_time_seconds r)"

definition stats_keys :: "db \<Rightarrow> (string \<times> date) list" where
  "stats_keys d = map (\<lambda>r. (ws_stage r, ws_date r)) (workflow_stats d)"

definition empty_db :: db where
  "empty_db = \<lparr>automations = [], workflow_events = [], workflow_stats = []\<rparr>"

text \<open>The invariant of the counters of a statistics row.\<close>

definition stats_consistent :: "db \<Rightarrow> bool" where
  "stats_consistent d \<longleftrightarrow>
     list_all (\<lambda>r. ws_items_processed r = ws_success_count r + ws_error_count r)
       (workflow_stats d)"

text \<open>
  A concrete day: two recordings for the stage Classification on day 7, and the tables
  in between.
\<close>

definition first_call :: env where
  "first_call = \<lparr>now = 1000, current_date = 7, gen_random_uuid = 1\<rparr>"

definition second_call :: env where
  "second_call = \<lparr>now = 2000, current_date = 7, gen_random_uuid = 2\<rparr>"

definition stats_after_first_success :: db where
  "stats_after_first_success =
     \<lparr>automations = [], workflow_events = [],
      workflow_stats = [\<lparr>ws_id = 1, ws_stage = ''Classification'', ws_date = 7,
         ws_items_processed = 1, ws_avg_processing_time_seconds = Some 10,
         ws_success_count = 1, ws_error_count = 0,
         ws_created_at = 1000, ws_updated_at = 1000\<rparr>]\<rparr>"

definition stats_after_failure :: db where
  "stats_after_failure =
     \<lparr>automations = [], workflow_events = [],
      workflow_stats = [\<lparr>ws_id = 1, ws_stage = ''Classification'', ws_date = 7,
         ws_items_processed = 2, ws_avg_processing_time_seconds = Some 10,
         ws_success_count = 1, ws_error_count = 1,
         ws_created_at = 1000, ws_updated_at = 2000\<rparr>]\<rparr>"

definition stats_after_second_success :: db where
  "stats_after_second_success =
     \<lparr>automations = [], workflow_events = [],
      workflow_stats = [\<lparr>ws_id = 1, ws_stage = ''Classification'', ws_date = 7,
         ws_items_processed = 2, ws_avg_processing_time_seconds = Some 20,
         ws_success_count = 2, ws_error_count = 0,
         ws_created_at = 1000, ws_updated_at = 2000\<rparr>]\<rparr>"

section \<open>Stages, the stage update of the pipeline page, and the activity view\<close>

text \<open>
  The fixed order of the stages: the kanban columns of the pipeline page, and the rank
  the view \<open>workflow_overview\<close> sorts by (\<open>CASE stage WHEN 'New' THEN 1 ... ELSE 6\<close>).
  The column \<open>stage\<close> is a \<open>VARCHAR(50)\<close> without a check constraint: any other
  string has rank 6.
\<close>

definition STAGES :: "string list" where
  "STAGES = [''New'', ''Classification'', ''Data Extraction'', ''Processing'', ''Done'']"

definition stage_order :: "string \<Rightarrow> nat" where
  "stage_order stage =
     (if stage = ''New'' then 1
      else if stage = ''Classification'' then 2
      else if stage = ''Data Extraction'' then 3
      else if stage = ''Processing'' then 4
      else if stage = ''Done'' then 5
      else 6)"

text \<open>
  \<open>onChangeStage(id, stage)\<close> of the pipeline page sends \<open>{stage}\<close> to the update
  endpoint: one \<open>UPDATE automations SET stage = ... WHERE id = ...\<close>.  No caller and no
  constraint compares the new stage with the old one.
\<close>

definition onChangeStage :: "env \<Rightarrow> uuid \<Rightarrow> string \<Rightarrow> db \<Rightarrow> error + db" where
  "onChangeStage e i stage d = update_automations e i (\<lambda>a. a\<lparr>au_stage := stage\<rparr>) d"

text \<open>A series of stage updates of one item, each in its own session.\<close>

fun change_stages :: "(env \<times> string) list \<Rightarrow> uuid \<Rightarrow> db \<Rightarrow> error + db" where
  "change_stages [] i d = Inr d"
| "change_stages (step # steps) i d =
     ebind (onChangeStage (fst step) i (snd step) d) (change_stages steps i)"

text \<open>The changes along a sequence of stages: the adjacent pairs that differ.\<close>

fun stage_changes :: "string list \<Rightarrow> (string \<times> string) list" where
  "stage_changes (s # t # rest) =
     (if s \<noteq> t then [(s, t)] else []) @ stage_changes (t # rest)"
| "stage_changes _ = []"

text \<open>
  A sequence of stages that only moves forward: every stage is one of the five, and each
  step stays or goes to a later stage of the fixed order.
\<close>

fun forward_path :: "string list \<Rightarrow> bool" where
  "forward_path [] = True"
| "forward_path [s] = (s \<in> set STAGES)"
| "forward_path (s # t # rest) =
     (s \<in> set STAGES \<and> (s = t \<or> stage_order s < stage_order t) \<and> forward_path (t # rest))"

text \<open>
  The stages the row of an item holds, read from the table: before a series of stage
  updates and after each one of them.
\<close>

definition item_stage :: "uuid \<Rightarrow> db \<Rightarrow> string list" where
  "item_stage i d =
     (case find (\<lambda>a. au_id a = i) (automations d) of None \<Rightarrow> [] | Some a \<Rightarrow> [au_stage a])"

fun stage_trace :: "(env \<times> string) list \<Rightarrow> uuid \<Rightarrow> db \<Rightarrow> string list" where
  "stage_trace [] i d = item_stage i d"
| "stage_trace (step # steps) i d =
     item_stage i d @
     (case onChangeStage (fst step) i (snd step) d of
        Inl err \<Rightarrow> []
      | Inr d1 \<Rightarrow> stage_trace steps i d1)"

text \<open>An event that records a move to an earlier stage.\<close>

definition is_backward :: "workflow_event \<Rightarrow> bool" where
  "is_backward ev =
     (case we_from_stage ev of
        None \<Rightarrow> False
      | Some f \<Rightarrow> (case we_to_stage ev of
                    None \<Rightarrow> False
                  | Some t \<Rightarrow> stage_order t < stage_order f))"

text \<open>The event the trigger writes for an update from \<open>OLD\<close> to \<open>NEW\<close>.\<close>

definition stage_changed_event :: "env \<Rightarrow> automation \<Rightarrow> automation \<Rightarrow> workflow_event" where
  "stage_changed_event e OLD NEW =
     \<lparr>we_id = gen_random_uuid e,
      we_automation_id = au_id NEW,
      we_event_type = ''stage_changed'',
      we_from_stage = Some (au_stage OLD),
      we_to_stage = Some (au_stage NEW),
      we_worker_id = au_assigned_worker NEW,
      we_metadata = Some (JObject [(''previous_updated_at'', JTimestamp (au_updated_at OLD)),
                                   (''new_updated_at'', JTimestamp (au_updated_at NEW))]),
      we_error_message = None,
      we_created_at = now e\<rparr>"

text \<open>
  The view \<open>recent_workflow_activity\<close>: the events joined with their automations,
  ordered by \<open>created_at DESC\<close>, the first 100 rows.  Rows with equal \<open>created_at\<close>
  come in the order of the join (PostgreSQL leaves their order open).
\<close>

record activity =
  ra_created_at :: timestamptz
  ra_event_type :: string
  ra_from_stage :: "string option"
  ra_to_stage :: "string option"
  ra_worker_id :: "string option"
  ra_automation_title :: string
  ra_automation_id :: uuid
  ra_error_message :: "string option"

definition activity_row :: "workflow_event \<Rightarrow> automation \<Rightarrow> activity" where
  "activity_row we a =
     \<lparr>ra_created_at = we_created_at we,
      ra_event_type = we_event_type we,
      ra_from_stage = we_from_stage we,
      ra_to_stage = we_to_stage we,
      ra_worker_id = we_worker_id we,
      ra_automation_title = au_title a,
      ra_automation_id = au_id a,
      ra_error_message = we_error_message we\<rparr>"

definition events_join_automations :: "db \<Rightarrow> activity list" where
  "events_join_automations d =
     concat (map (\<lambda>we. map (activity_row we)
                          (filter (\<lambda>a. we_automation_id we = au_id a) (automations d)))
               (workflow_events d))"

definition recent_workflow_activity :: "db \<Rightarrow> activity list" where
  "recent_workflow_activity d =
     take 100 (sort_key (\<lambda>r. - ra_created_at r) (events_join_automations d))"

text \<open>
  The key constraints of the schema: \<open>automations.id\<close> is a primary key, and
  \<open>workflow_events.automation_id\<close> references it.
\<close>

definition keys_ok :: "db \<Rightarrow> bool" where
  "keys_ok d \<longleftrightarrow>
     distinct (map au_id (automations d))
   \<and> list_all (\<lambda>we. we_automation_id we \<in> set (map au_id (automations d))) (workflow_events d)"

text \<open>An item in the stage Done, unassigned, and a session that moves it back to New.\<close>

definition done_item :: automation where
  "done_item =
     \<lparr>au_id = 1, au_title = ''Invoice-A'', au_stage = ''Done'',
      au_file_name = None, au_file_url = None, au_blob_name = None,
      au_created_at = 100, au_updated_at = 900,
      au_processing_started_at = None, au_processing_completed_at = Some 900,
      au_retry_count = 0, au_last_error = None, au_processing_metadata = None,
      au_assigned_worker = None, au_lob = None, au_process = None,
      au_classification_status = Some ''pending'', au_case_parameters = None\<rparr>"

definition done_db :: db where
  "done_db = \<lparr>automations = [done_item], workflow_events = [], workflow_stats = []\<rparr>"

text \<open>An item in the stage New and two sessions that move it forward.\<close>

definition new_item :: automation where
  "new_item =
     \<lparr>au_id = 1, au_title = ''Invoice-A'', au_stage = ''New'',
      au_file_name = None, au_file_url = None, au_blob_name = None,
      au_created_at = 100, au_updated_at = 100,
      au_processing_started_at = None, au_processing_completed_at = None,
      au_retry_count = 0, au_last_error = None, au_processing_metadata = None,
      au_assigned_worker = None, au_lob = None, au_process = None,
      au_classification_status = Some ''pending'', au_case_parameters = None\<rparr>"

definition forward_steps :: "(env \<times> string) list" where
  "forward_steps =
     [(\<lparr>now = 200, current_date = 7, gen_random_uuid = 11\<rparr>, ''Classification''),
      (\<lparr>now = 300, current_date = 7, gen_random_uuid = 12\<rparr>, ''Data Extraction'')]"

text \<open>The same item, held by a worker while it is moved.\<close>

definition held_item :: automation where
  "held_item = new_item\<lparr>au_assigned_worker := Some ''classifier-1''\<rparr>"

definition held_db :: db where
  "held_db = \<lparr>automations = [held_item], workflow_events = [], workflow_stats = []\<rparr>"

text \<open>
  Two items and 102 events, numbered in the order they were written and alternating
  between the items; the event \<open>n\<close> was created at time \<open>n\<close>.
\<close>

definition numbered_event :: "nat \<Rightarrow> workflow_event" where
  "numbered_event n =
     \<lparr>we_id = n, we_automation_id = (if n mod 2 = 0 then 2 else 1),
      we_event_type = ''processing_started'',
      we_from_stage = None, we_to_stage = None, we_worker_id = Some ''w1'',
      we_metadata = None, we_error_message = None, we_created_at = int n\<rparr>"

definition busy_db :: db where
  "busy_db =
     \<lparr>automations = [new_item, new_item\<lparr>au_id := 2, au_title := ''Claim-B''\<rparr>],
      workflow_events = map numbered_event [0..<102],
      workflow_stats = []\<rparr>"

section \<open>The item store of the specification\<close>

text \<open>
  The operations of the item store (\<open>claimNext\<close>, \<open>transition\<close>,
  \<open>recordFailure\<close>, \<open>manualTransition\<close>) live in the backend service
  \<open>app/services/workflow_engine.py\<close>, which is not among the sources.  They are
  modelled below from section 4.1 of the specification, on the tables of the schema; an
  event is appended with \<open>log_workflow_event\<close>, the one writer of the event table
  the sources have.
\<close>

text \<open>
  Modelled from the spec: the outcomes of the store's operations other than success
  (section 7: a lost race, a refused backward move, a failure of the persistent store).
\<close>

datatype store_error =
    StaleStateError
  | NotForward
  | PersistenceError error

text \<open>
  Modelled from the spec: an item is unclaimed in a stage when it is in that stage and no
  worker holds \<open>assigned_worker\<close>.
\<close>

definition unclaimed_in :: "string \<Rightarrow> automation \<Rightarrow> bool" where
  "unclaimed_in stage a \<longleftrightarrow> au_stage a = stage \<and> au_assigned_worker a = None"

text \<open>
  Modelled from the spec: ``strict creation-time FIFO; ties broken by id'', the order in
  which \<open>claimNext\<close> serves a stage, and the first item of a list in that order.
\<close>

definition older_or_same :: "automation \<Rightarrow> automation \<Rightarrow> bool" where
  "older_or_same a b \<longleftrightarrow>
     au_created_at a < au_created_at b
   \<or> (au_created_at a = au_created_at b \<and> au_id a \<le> au_id b)"

fun oldest :: "automation list \<Rightarrow> automation option" where
  "oldest [] = None"
| "oldest (a # rest) =
     (case oldest rest of
        None \<Rightarrow> Some a
      | Some b \<Rightarrow> if older_or_same a b then Some a else Some b)"

text \<open>
  Modelled from the spec: \<open>claimNext(stage, workerId)\<close>, absent from the sources.
  ``Atomically selects the oldest unclaimed item in stage (strict creation-time FIFO;
  ties broken by id for determinism), sets assigned_worker and processing_started_at in
  the same atomic step.  Returns none on empty queue; never blocks.''
\<close>

definition claimNext :: "env \<Rightarrow> string \<Rightarrow> string \<Rightarrow> db \<Rightarrow> automation option \<times> db" where
  "claimNext e stage workerId d =
     (case oldest (filter (unclaimed_in stage) (automations d)) of
        None \<Rightarrow> (None, d)
      | Some a \<Rightarrow>
          (let claimed = a\<lparr>au_assigned_worker := Some workerId,
                           au_processing_started_at := Some (now e)\<rparr>
           in (Some claimed, d\<lparr>automations := replace_row (au_id a) claimed (automations d)\<rparr>)))"

text \<open>
  Modelled from the spec: the partial field updates a stage handler returns on success,
  merged into the item by \<open>transition\<close>; a field the handler leaves out keeps its
  value.
\<close>

record result_fields =
  rf_lob :: "string option"
  rf_process :: "string option"
  rf_classification_status :: "string option"
  rf_case_parameters :: "jsonb option"
  rf_processing_metadata :: "jsonb option"

definition merge_field :: "'a option \<Rightarrow> 'a option \<Rightarrow> 'a option" where
  "merge_field new old = (case new of None \<Rightarrow> old | Some v \<Rightarrow> Some v)"

definition merge_result_fields :: "result_fields \<Rightarrow> automation \<Rightarrow> automation" where
  "merge_result_fields rf a =
     a\<lparr>au_lob := merge_field (rf_lob rf) (au_lob a),
       au_process := merge_field (rf_process rf) (au_process a),
       au_classification_status :=
         merge_field (rf_classification_status rf) (au_classification_status a),
       au_case_parameters := merge_field (rf_case_parameters rf) (au_case_parameters a),
       au_processing_metadata :=
         merge_field (rf_processing_metadata rf) (au_processing_metadata a)\<rparr>"

text \<open>
  Modelled from the spec: the append to the event log inside a store operation; a
  database error of \<open>log_workflow_event\<close> is a persistence error of the store.
\<close>

definition append_event ::
  "env \<Rightarrow> uuid \<Rightarrow> string \<Rightarrow> string option \<Rightarrow> string option \<Rightarrow> string option \<Rightarrow>
   string option \<Rightarrow> db \<Rightarrow> store_error + db" where
  "append_event e item_id event_type from_stage to_stage worker_id error_message d =
     (case log_workflow_event e item_id event_type from_stage to_stage worker_id None
             error_message d of
        Inl err \<Rightarrow> Inl (PersistenceError err)
      | Inr r \<Rightarrow> Inr (snd r))"

text \<open>
  Modelled from the spec: \<open>transition(id, expectedFromStage, toStage, workerId,
  resultFields)\<close>, absent from the sources.  ``Fails if the item's current
  stage/assigned_worker no longer match the expectation, otherwise updates stage, merges
  resultFields, clears assigned_worker and processing_started_at, sets
  processing_completed_at, and appends a stage_changed event, all as one atomic commit.''
\<close>

definition transition ::
  "env \<Rightarrow> uuid \<Rightarrow> string \<Rightarrow> string \<Rightarrow> string \<Rightarrow> result_fields \<Rightarrow> db \<Rightarrow> store_error + db" where
  "transition e i expectedFromStage toStage workerId resultFields d =
     (case find (\<lambda>a. au_id a = i) (automations d) of
        None \<Rightarrow> Inl StaleStateError
      | Some a \<Rightarrow>
          if au_stage a \<noteq> expectedFromStage \<or> au_assigned_worker a \<noteq> Some workerId
          then Inl StaleStateError
          else
            (let moved = (merge_result_fields resultFields a)
                           \<lparr>au_stage := toStage,
                            au_assigned_worker := None,
                            au_processing_started_at := None,
                            au_processing_completed_at := Some (now e)\<rparr>
             in append_event e i ''stage_changed'' (Some expectedFromStage) (Some toStage)
                  (Some workerId) None
                  (d\<lparr>automations := replace_row i moved (automations d)\<rparr>)))"

text \<open>
  Modelled from the spec: \<open>recordFailure(id, workerId, errorText)\<close>, absent from
  the sources.  ``Increments retry_count, sets last_error, clears assigned_worker (item
  returns to its queue), appends an error_occurred event.''  It is stale when the item
  is gone or another worker holds it.
\<close>

definition recordFailure :: "env \<Rightarrow> uuid \<Rightarrow> string \<Rightarrow> string \<Rightarrow> db \<Rightarrow> store_error + db" where
  "recordFailure e i workerId errorText d =
     (case find (\<lambda>a. au_id a = i) (automations d) of
        None \<Rightarrow> Inl StaleStateError
      | Some a \<Rightarrow>
          if au_assigned_worker a \<noteq> Some workerId then Inl StaleStateError
          else
            (let failed = a\<lparr>au_retry_count := au_retry_count a + 1,
                            au_last_error := Some errorText,
                            au_assigned_worker := None\<rparr>
             in append_event e i ''error_occurred'' (Some (au_stage a)) None
                  (Some workerId) (Some errorText)
                  (d\<lparr>automations := replace_row i failed (automations d)\<rparr>)))"

text \<open>
  Modelled from the spec: \<open>manualTransition(id, toStage, operatorTag)\<close>, absent from
  the sources.  ``Administrative override; still enforces forward-only ordering; logs
  with worker_id = operatorTag.''
\<close>

definition manualTransition :: "env \<Rightarrow> uuid \<Rightarrow> string \<Rightarrow> string \<Rightarrow> db \<Rightarrow> store_error + db" where
  "manualTransition e i toStage operatorTag d =
     (case find (\<lambda>a. au_id a = i) (automations d) of
        None \<Rightarrow> Inl StaleStateError
      | Some a \<Rightarrow>
          if \<not> stage_order (au_stage a) < stage_order toStage then Inl NotForward
          else
            (let moved = a\<lparr>au_stage := toStage\<rparr>
             in append_event e i ''stage_changed'' (Some (au_stage a)) (Some toStage)
                  (Some operatorTag) None
                  (d\<lparr>automations := replace_row i moved (automations d)\<rparr>)))"

text \<open>
  Modelled from the spec: the operations of the core on the persistent state, the four
  operations of the item store, together with the statements of the schema (the stage update with its triggers, the event
  function, the statistics function).  An operation that fails is rolled back: the state
  stays as it was.
\<close>

datatype core_op =
    ClaimNext string string
  | Transition uuid string string string result_fields
  | RecordFailure uuid string string
  | ManualTransition uuid string string
  | ChangeStage uuid string
  | LogEvent uuid string "string option" "string option" "string option" "jsonb option"
      "string option"
  | RecordStats string "rat option" bool

definition committed :: "db \<Rightarrow> 'e + db \<Rightarrow> db" where
  "committed d r = (case r of Inl err \<Rightarrow> d | Inr d' \<Rightarrow> d')"

fun exec :: "env \<Rightarrow> core_op \<Rightarrow> db \<Rightarrow> db" where
  "exec e (ClaimNext stage workerId) d = snd (claimNext e stage workerId d)"
| "exec e (Transition i fromStage toStage workerId rf) d =
     committed d (transition e i fromStage toStage workerId rf d)"
| "exec e (RecordFailure i workerId errorText) d =
     committed d (recordFailure e i workerId errorText d)"
| "exec e (ManualTransition i toStage operatorTag) d =
     committed d (manualTransition e i toStage operatorTag d)"
| "exec e (ChangeStage i stage) d = committed d (onChangeStage e i stage d)"
| "exec e (LogEvent i t f s w m x) d =
     committed d (ebind (log_workflow_event e i t f s w m x d) (\<lambda>r. Inr (snd r)))"
| "exec e (RecordStats stage seconds success) d =
     committed d (update_workflow_stats e stage seconds success d)"

fun run :: "(env \<times> core_op) list \<Rightarrow> db \<Rightarrow> db" where
  "run [] d = d"
| "run (step # steps) d = run steps (exec (fst step) (snd step) d)"

text \<open>Two unclaimed items of one stage, created at the same time, and an older claimed one.\<close>

definition queue_db :: db where
  "queue_db =
     \<lparr>automations =
        [new_item\<lparr>au_id := 3, au_created_at := 50, au_assigned_worker := Some ''w0''\<rparr>,
         new_item\<lparr>au_id := 2, au_created_at := 100\<rparr>,
         new_item\<lparr>au_id := 1, au_created_at := 100\<rparr>,
         new_item\<lparr>au_id := 4, au_created_at := 70, au_stage := ''Classification''\<rparr>],
      workflow_events = [], workflow_stats = []\<rparr>"

text \<open>A worker claims the first item of the queue, fails once, claims again and succeeds.\<close>

definition example_steps :: "(env \<times> core_op) list" where
  "example_steps =
     [(\<lparr>now = 200, current_date = 7, gen_random_uuid = 20\<rparr>, ClaimNext ''New'' ''w1''),
      (\<lparr>now = 210, current_date = 7, gen_random_uuid = 21\<rparr>,
         RecordFailure 1 ''w1'' ''timeout''),
      (\<lparr>now = 211, current_date = 7, gen_random_uuid = 22\<rparr>,
         RecordStats ''New'' None False),
      (\<lparr>now = 220, current_date = 7, gen_random_uuid = 23\<rparr>, ClaimNext ''New'' ''w1''),
      (\<lparr>now = 230, current_date = 7, gen_random_uuid = 24\<rparr>,
         Transition 1 ''New'' ''Classification'' ''w1''
           \<lparr>rf_lob = Some ''Auto'', rf_process = None, rf_classification_status = None,
            rf_case_parameters = None, rf_processing_metadata = None\<rparr>),
      (\<lparr>now = 240, current_date = 7, gen_random_uuid = 25\<rparr>,
         ManualTransition 1 ''New'' ''admin''),
      (\<lparr>now = 250, current_date = 7, gen_random_uuid = 26\<rparr>,
         ManualTransition 4 ''Done'' ''admin'')]"

section \<open>Properties of update_workflow_stats\<close>

subsection \<open>Auxiliary facts\<close>

lemma floor_rat_numeral [simp]: "\<lfloor>(numeral a :: rat) / numeral b\<rfloor> = numeral a div numeral b"
  using floor_divide_of_int_eq [of "numeral a" "numeral b", where ?'a = rat] by simp

lemma ebind_Inr_iff: "ebind m f = Inr y \<longleftrightarrow> (\<exists>x. m = Inr x \<and> f x = Inr y)"
  by (cases m) (simp_all add: ebind_def)

lemma int4_Inr: "int4 x = Inr y \<Longrightarrow> y = x"
  by (simp add: int4_def split: if_splits)


lemma update_where_all:
  assumes "update_where P f rows = Inr rows'"
    and "list_all Q rows"
    and "\<And>r r'. P r \<Longrightarrow> Q r \<Longrightarrow> f r = Inr r' \<Longrightarrow> Q r'"
  shows "list_all Q rows'"
  using assms by (induction rows arbitrary: rows') (auto simp: ebind_Inr_iff split: if_splits)

lemma update_where_find:
  assumes "update_where P f rows = Inr rows'"
    and "\<And>r r'. P r \<Longrightarrow> f r = Inr r' \<Longrightarrow> P r'"
    and "find P rows = Some r"
  shows "\<exists>r'. f r = Inr r' \<and> find P rows' = Some r'"
  using assms by (induction rows arbitrary: rows') (auto simp: ebind_Inr_iff split: if_splits)

lemma update_where_succeeds:
  assumes "\<And>r. r \<in> set rows \<Longrightarrow> P r \<Longrightarrow> \<exists>r'. f r = Inr r'"
  shows "\<exists>rows'. update_where P f rows = Inr rows'"
  using assms
proof (induction rows)
  case Nil
  then show ?case by simp
next
  case (Cons a rows)
  then obtain rows' where rows': "update_where P f rows = Inr rows'"
    by auto
  show ?case
  proof (cases "P a")
    case True
    with Cons.prems [of a] obtain a' where "f a = Inr a'"
      by auto
    with True rows' show ?thesis
      by (simp add: ebind_def)
  next
    case False
    with rows' show ?thesis
      by (simp add: ebind_def)
  qed
qed

lemma stats_set_clause_Inr:
  assumes "stats_set_clause e p b r = Inr r'"
  shows "ws_stage r' = ws_stage r" "ws_date r' = ws_date r" "ws_id r' = ws_id r"
    "ws_items_processed r' = ws_items_processed r + 1"
    "ws_success_count r' = ws_success_count r + (if b then 1 else 0)"
    "ws_error_count r' = ws_error_count r + (if b then 0 else 1)"
    "new_avg_processing_time r p = Inr (ws_avg_processing_time_seconds r')"
  using assms by (auto simp: stats_set_clause_def ebind_Inr_iff dest!: int4_Inr)

lemma stats_set_clause_matches:
  "stats_row_matches s t r \<Longrightarrow> stats_set_clause e p b r = Inr r' \<Longrightarrow> stats_row_matches s t r'"
  by (simp add: stats_row_matches_def stats_set_clause_Inr)

lemma find_None_list_ex: "find P xs = None \<longleftrightarrow> \<not> list_ex P xs"
  by (induction xs) auto

lemma find_append_new: "find P xs = None \<Longrightarrow> P x \<Longrightarrow> find P (xs @ [x]) = Some x"
  by (induction xs) (auto split: if_splits)

lemma list_ex_matches_keys:
  "list_ex (stats_row_matches s t) (workflow_stats d) \<longleftrightarrow> (s, t) \<in> set (stats_keys d)"
  by (auto simp: list_ex_iff stats_keys_def stats_row_matches_def)

lemma insert_workflow_stats_Inr:
  assumes "insert_workflow_stats e s p b rows = Inr rows'"
  obtains avg where
    "rows' = rows @
       [\<lparr>ws_id = gen_random_uuid e, ws_stage = s, ws_date = current_date e,
         ws_items_processed = 1, ws_avg_processing_time_seconds = avg,
         ws_success_count = (if b then 1 else 0), ws_error_count = (if b then 0 else 1),
         ws_created_at = now e, ws_updated_at = now e\<rparr>]"
    "p = None \<Longrightarrow> avg = None"
  using assms unfolding insert_workflow_stats_def
  by (auto simp: ebind_Inr_iff split: if_splits option.splits)

text \<open>The two branches of the function: FOUND runs the UPDATE, otherwise the INSERT.\<close>

lemma update_workflow_stats_cases:
  assumes "update_workflow_stats e s p b d = Inr d'"
  obtains (updated) rows r r' where
      "find (stats_row_matches s (current_date e)) (workflow_stats d) = Some r"
      "update_where (stats_row_matches s (current_date e)) (stats_set_clause e p b)
         (workflow_stats d) = Inr rows"
      "stats_set_clause e p b r = Inr r'"
      "find (stats_row_matches s (current_date e)) rows = Some r'"
      "d' = d\<lparr>workflow_stats := rows\<rparr>"
  | (inserted) avg where
      "find (stats_row_matches s (current_date e)) (workflow_stats d) = None"
      "d' = d\<lparr>workflow_stats := workflow_stats d @
         [\<lparr>ws_id = gen_random_uuid e, ws_stage = s, ws_date = current_date e,
           ws_items_processed = 1, ws_avg_processing_time_seconds = avg,
           ws_success_count = (if b then 1 else 0), ws_error_count = (if b then 0 else 1),
           ws_created_at = now e, ws_updated_at = now e\<rparr>]\<rparr>"
      "p = None \<Longrightarrow> avg = None"
proof (cases "list_ex (stats_row_matches s (current_date e)) (workflow_stats d)")
  case True
  let ?P = "stats_row_matches s (current_date e)"
  from True obtain r where r: "find ?P (workflow_stats d) = Some r"
    using find_None_list_ex [of ?P "workflow_stats d"]
    by (cases "find ?P (workflow_stats d)") auto
  from assms True obtain rows where
    upd: "update_where ?P (stats_set_clause e p b) (workflow_stats d) = Inr rows"
    and d': "d' = d\<lparr>workflow_stats := rows\<rparr>"
    by (auto simp: update_workflow_stats_def ebind_Inr_iff)
  have "\<exists>r'. stats_set_clause e p b r = Inr r' \<and> find ?P rows = Some r'"
    by (rule update_where_find [OF upd _ r]) (rule stats_set_clause_matches)
  then obtain r' where sc: "stats_set_clause e p b r = Inr r'" and fr: "find ?P rows = Some r'"
    by blast
  show ?thesis
    by (rule updated [OF r upd sc fr d'])
next
  case False
  with assms obtain rows where
    ins: "insert_workflow_stats e s p b (workflow_stats d) = Inr rows"
    and d': "d' = d\<lparr>workflow_stats := rows\<rparr>"
    by (auto simp: update_workflow_stats_def ebind_Inr_iff)
  from False have none: "find (stats_row_matches s (current_date e)) (workflow_stats d) = None"
    by (simp add: find_None_list_ex)
  from ins show ?thesis
  proof (rule insert_workflow_stats_Inr)
    fix avg
    assume "rows = workflow_stats d @
       [\<lparr>ws_id = gen_random_uuid e, ws_stage = s, ws_date = current_date e,
         ws_items_processed = 1, ws_avg_processing_time_seconds = avg,
         ws_success_count = (if b then 1 else 0), ws_error_count = (if b then 0 else 1),
         ws_created_at = now e, ws_updated_at = now e\<rparr>]"
      and "p = None \<Longrightarrow> avg = None"
    with none d' show ?thesis
      by (intro inserted [of avg]) simp_all
  qed
qed

lemmas stats_eval =
  update_workflow_stats_def insert_workflow_stats_def stats_row_matches_def
  stats_set_clause_def new_avg_processing_time_def decimal_10_2_def round_half_away_def
  int4_def ebind_def empty_db_def first_call_def second_call_def
  stats_after_first_success_def stats_after_failure_def stats_after_second_success_def

lemmas stats_read_eval =
  avg_processing_time_of_def items_processed_of_def error_count_of_def success_count_of_def
  stat_row_def stats_keys_def stats_consistent_def

lemma first_success_inserts_row:
  "update_workflow_stats first_call ''Classification'' (Some 10) True empty_db
     = Inr stats_after_first_success"
  by (simp add: stats_eval)

lemma failure_updates_row:
  "update_workflow_stats second_call ''Classification'' None False stats_after_first_success
     = Inr stats_after_failure"
  by (simp add: stats_eval)

lemma second_success_updates_row:
  "update_workflow_stats second_call ''Classification'' (Some 20) True
     stats_after_first_success = Inr stats_after_second_success"
  by (simp add: stats_eval)

text \<open>
  Recording a failure without a duration succeeds as long as the counters of the table
  are below the 32 bit bound and the new row id is unused.
\<close>

lemma failure_recording_succeeds:
  assumes "\<And>r. r \<in> set (workflow_stats d) \<Longrightarrow>
             - 2147483648 \<le> ws_items_processed r \<and> ws_items_processed r < 2147483647
           \<and> - 2147483648 \<le> ws_success_count r \<and> ws_success_count r \<le> 2147483647
           \<and> - 2147483648 \<le> ws_error_count r \<and> ws_error_count r < 2147483647"
    and "gen_random_uuid e \<notin> set (map ws_id (workflow_stats d))"
  shows "\<exists>d'. update_workflow_stats e s None False d = Inr d'"
proof (cases "list_ex (stats_row_matches s (current_date e)) (workflow_stats d)")
  case True
  have "\<exists>rows'. update_where (stats_row_matches s (current_date e))
          (stats_set_clause e None False) (workflow_stats d) = Inr rows'"
  proof (rule update_where_succeeds)
    fix r assume "r \<in> set (workflow_stats d)"
    from assms(1) [OF this] show "\<exists>r'. stats_set_clause e None False r = Inr r'"
      by (simp add: stats_set_clause_def int4_def ebind_def new_avg_processing_time_def)
  qed
  with True show ?thesis
    by (auto simp: update_workflow_stats_def ebind_def)
next
  case False
  with assms(2) show ?thesis
    by (simp add: update_workflow_stats_def insert_workflow_stats_def ebind_def)
qed

subsection \<open>The running average (claim C1)\<close>

text \<open>
  In the UPDATE branch the average is recomputed from the row as it was before the
  statement: the count \<open>n\<close> that enters \<open>(avg * (n - 1) + t) / n\<close> is
  \<open>items_processed\<close> before the increment, not after it.
\<close>

lemma update_branch_average:
  assumes "update_workflow_stats e s (Some t) b d = Inr d'"
    and "stat_row d s (current_date e) = Some r"
    and "ws_avg_processing_time_seconds r = Some a"
  shows "\<exists>v. decimal_10_2 ((a * of_int (ws_items_processed r - 1) + t)
                 / of_int (ws_items_processed r)) = Inr v
           \<and> avg_processing_time_of d' s (current_date e) = Some v"
  using assms(1)
proof (cases rule: update_workflow_stats_cases)
  case (updated rows r0 r')
  with assms(2) have "r0 = r"
    by (simp add: stat_row_def)
  with stats_set_clause_Inr(7) [OF updated(3)] assms(3) updated(4,5) show ?thesis
    by (auto simp: new_avg_processing_time_def ebind_Inr_iff avg_processing_time_of_def
        stat_row_def dest!: int4_Inr split: if_splits)
next
  case (inserted avg)
  with assms(2) show ?thesis
    by (simp add: stat_row_def)
qed

text \<open>
  Claim C1: after two successful completions of the same stage and day, with durations
  of 10 and 20 seconds, the stored average is expected to be 15.  Evaluated on the empty
  table the two calls leave one row with \<open>items_processed = 2\<close> and an average of
  20: the second call computes \<open>(10 * (1 - 1) + 20) / 1\<close>.
\<close>

theorem two_successes_average_is_20:
  "ebind (update_workflow_stats first_call ''Classification'' (Some 10) True empty_db)
     (update_workflow_stats second_call ''Classification'' (Some 20) True)
     = Inr stats_after_second_success
   \<and> items_processed_of stats_after_second_success ''Classification'' 7 = 2
   \<and> avg_processing_time_of stats_after_second_success ''Classification'' 7 = Some 20
   \<and> avg_processing_time_of stats_after_second_success ''Classification'' 7 \<noteq> Some 15"
  by (simp add: stats_eval stats_read_eval)

subsection \<open>A failure without a duration (claim C7)\<close>

text \<open>
  Claim C7: when a failure is recorded with no measured duration, the upsert leaves
  \<open>avg_processing_time_seconds\<close> of the stage's row of the day unchanged, increments
  \<open>items_processed\<close> and \<open>error_count\<close>, and leaves \<open>success_count\<close>
  unchanged.  A stage without a row of the day counts as zero with a NULL average: the
  inserted row then has the counters 1, 0, 1 and a NULL average.
\<close>

theorem failure_without_duration_keeps_average:
  assumes "update_workflow_stats e p_stage None False d = Inr d'"
  shows "avg_processing_time_of d' p_stage (current_date e)
           = avg_processing_time_of d p_stage (current_date e)
       \<and> items_processed_of d' p_stage (current_date e)
           = items_processed_of d p_stage (current_date e) + 1
       \<and> error_count_of d' p_stage (current_date e)
           = error_count_of d p_stage (current_date e) + 1
       \<and> success_count_of d' p_stage (current_date e)
           = success_count_of d p_stage (current_date e)"
  using assms
proof (cases rule: update_workflow_stats_cases)
  case (updated rows r r')
  from stats_set_clause_Inr [OF updated(3)] updated(1,4,5) show ?thesis
    by (simp add: avg_processing_time_of_def items_processed_of_def error_count_of_def
        success_count_of_def stat_row_def new_avg_processing_time_def)
next
  case (inserted avg)
  then show ?thesis
    by (simp add: avg_processing_time_of_def items_processed_of_def error_count_of_def
        success_count_of_def stat_row_def find_append_new stats_row_matches_def)
qed

theorem failure_without_duration_keeps_average_witness:
  "update_workflow_stats second_call ''Classification'' None False stats_after_first_success
     = Inr stats_after_failure
   \<and> avg_processing_time_of stats_after_failure ''Classification'' 7 = Some 10
   \<and> items_processed_of stats_after_failure ''Classification'' 7 = 2
   \<and> error_count_of stats_after_failure ''Classification'' 7 = 1
   \<and> success_count_of stats_after_failure ''Classification'' 7 = 1"
proof -
  have before:
    "avg_processing_time_of stats_after_first_success ''Classification'' 7 = Some 10"
    "items_processed_of stats_after_first_success ''Classification'' 7 = 1"
    "error_count_of stats_after_first_success ''Classification'' 7 = 0"
    "success_count_of stats_after_first_success ''Classification'' 7 = 1"
    "current_date second_call = 7"
    by (simp_all add: stats_read_eval stats_eval)
  from failure_without_duration_keeps_average [OF failure_updates_row]
    failure_updates_row before
  show ?thesis
    by simp
qed

subsection \<open>One row per stage and day (claim C8)\<close>



subsection \<open>The counters add up (claim C10)\<close>

text \<open>
  Claim C10: every row of \<open>workflow_stats\<close> satisfies
  \<open>items_processed = success_count + error_count\<close>.  A recording, of a success or of
  a failure, keeps the invariant on every row of the table, and a row it inserts has
  \<open>items_processed = 1\<close> with exactly one of the two other counters at 1.
\<close>

theorem stats_counts_add_up:
  assumes "stats_consistent d"
    and "update_workflow_stats e s p b d = Inr d'"
  shows "stats_consistent d'
       \<and> (if (s, current_date e) \<in> set (stats_keys d) then True
          else \<exists>r. workflow_stats d' = workflow_stats d @ [r]
             \<and> ws_items_processed r = 1 \<and> ws_success_count r + ws_error_count r = 1)"
  using assms(2)
proof (cases rule: update_workflow_stats_cases)
  case (updated rows r0 r0')
  have "list_all (\<lambda>r. ws_items_processed r = ws_success_count r + ws_error_count r) rows"
  proof (rule update_where_all [OF updated(2)])
    show "list_all (\<lambda>r. ws_items_processed r = ws_success_count r + ws_error_count r)
        (workflow_stats d)"
      using assms(1) by (simp add: stats_consistent_def)
  next
    fix r r'
    assume "ws_items_processed r = ws_success_count r + ws_error_count r"
      and "stats_set_clause e p b r = Inr r'"
    then show "ws_items_processed r' = ws_success_count r' + ws_error_count r'"
      by (simp add: stats_set_clause_Inr)
  qed
  moreover from updated(1) have "(s, current_date e) \<in> set (stats_keys d)"
    using find_None_list_ex [of "stats_row_matches s (current_date e)" "workflow_stats d"]
    by (simp add: list_ex_matches_keys)
  ultimately show ?thesis
    using updated(5) by (simp add: stats_consistent_def)
next
  case (inserted avg)
  from inserted(1) have "(s, current_date e) \<notin> set (stats_keys d)"
    by (simp add: find_None_list_ex list_ex_matches_keys)
  with assms(1) inserted(2) show ?thesis
    by (auto simp: stats_consistent_def)
qed

theorem stats_counts_add_up_witness:
  "stats_consistent stats_after_first_success
   \<and> update_workflow_stats second_call ''Classification'' None False
       stats_after_first_success = Inr stats_after_failure
   \<and> stats_consistent stats_after_failure
   \<and> items_processed_of stats_after_failure ''Classification'' 7 = 2
   \<and> success_count_of stats_after_failure ''Classification'' 7 = 1
   \<and> error_count_of stats_after_failure ''Classification'' 7 = 1
   \<and> update_workflow_stats second_call ''Classification'' (Some 20) True
       stats_after_first_success = Inr stats_after_second_success
   \<and> stats_consistent stats_after_second_success
   \<and> items_processed_of stats_after_second_success ''Classification'' 7 = 2
   \<and> success_count_of stats_after_second_success ''Classification'' 7 = 2
   \<and> error_count_of stats_after_second_success ''Classification'' 7 = 0
   \<and> stats_consistent empty_db
   \<and> update_workflow_stats first_call ''Classification'' (Some 10) True empty_db
       = Inr stats_after_first_success
   \<and> (\<exists>r. workflow_stats stats_after_first_success = workflow_stats empty_db @ [r]
         \<and> ws_items_processed r = 1 \<and> ws_success_count r + ws_error_count r = 1)"
proof -
  have empty: "stats_consistent empty_db"
    by (simp add: stats_read_eval stats_eval)
  have fresh: "(''Classification'', current_date first_call) \<notin> set (stats_keys empty_db)"
    by (simp add: stats_read_eval stats_eval)
  from stats_counts_add_up [OF empty first_success_inserts_row] fresh
  have first: "stats_consistent stats_after_first_success"
    and row: "\<exists>r. workflow_stats stats_after_first_success = workflow_stats empty_db @ [r]
         \<and> ws_items_processed r = 1 \<and> ws_success_count r + ws_error_count r = 1"
    by simp_all
  from stats_counts_add_up [OF first failure_updates_row]
  have failure: "stats_consistent stats_after_failure"
    by simp
  from stats_counts_add_up [OF first second_success_updates_row]
  have success: "stats_consistent stats_after_second_success"
    by simp
  have counts:
    "items_processed_of stats_after_failure ''Classification'' 7 = 2"
    "success_count_of stats_after_failure ''Classification'' 7 = 1"
    "error_count_of stats_after_failure ''Classification'' 7 = 1"
    "items_processed_of stats_after_second_success ''Classification'' 7 = 2"
    "success_count_of stats_after_second_success ''Classification'' 7 = 2"
    "error_count_of stats_after_second_success ''Classification'' 7 = 0"
    by (simp_all add: stats_read_eval stats_eval)
  from empty first row failure success counts
    first_success_inserts_row failure_updates_row second_success_updates_row
  show ?thesis
    by simp
qed

section \<open>Properties of the stage change trigger\<close>

subsection \<open>Auxiliary facts\<close>

lemma find_id_Some:
  "find (\<lambda>a. au_id a = i) rows = Some a \<Longrightarrow> au_id a = i \<and> a \<in> set rows"
  by (induction rows) (auto split: if_splits)

lemma find_replace_row:
  assumes "find (\<lambda>a. au_id a = i) rows = Some OLD"
    and "au_id NEW = i \<or> au_id NEW \<notin> set (map au_id rows)"
  shows "find (\<lambda>a. au_id a = au_id NEW) (replace_row i NEW rows) = Some NEW"
  using assms by (induction rows) (auto split: if_splits)

lemma replace_row_ids:
  "au_id NEW = i \<Longrightarrow> map au_id (replace_row i NEW rows) = map au_id rows"
  by (induction rows) auto

lemma log_workflow_event_Inr:
  assumes "log_workflow_event e a t f s w m x d = Inr r"
  shows "fst r = gen_random_uuid e"
    and "snd r = d\<lparr>workflow_events := workflow_events d @
          [\<lparr>we_id = gen_random_uuid e, we_automation_id = a, we_event_type = t,
            we_from_stage = f, we_to_stage = s, we_worker_id = w, we_metadata = m,
            we_error_message = x, we_created_at = now e\<rparr>]\<rparr>"
  using assms by (auto simp: log_workflow_event_def Let_def split: if_splits)

lemma track_stage_changes_Inr:
  assumes "track_stage_changes e OLD NEW d = Inr d'"
  shows "d' = d\<lparr>workflow_events := workflow_events d @
           (if au_stage OLD \<noteq> au_stage NEW then [stage_changed_event e OLD NEW] else [])\<rparr>"
proof (cases "au_stage OLD \<noteq> au_stage NEW")
  case True
  with assms obtain r where
    "log_workflow_event e (au_id NEW) ''stage_changed''
       (Some (au_stage OLD)) (Some (au_stage NEW)) (au_assigned_worker NEW)
       (Some (JObject [(''previous_updated_at'', JTimestamp (au_updated_at OLD)),
                       (''new_updated_at'', JTimestamp (au_updated_at NEW))]))
       None d = Inr r" and "d' = snd r"
    by (auto simp: track_stage_changes_def ebind_Inr_iff)
  with True log_workflow_event_Inr(2) [OF this(1)] show ?thesis
    by (simp add: stage_changed_event_def)
next
  case False
  with assms show ?thesis
    by (simp add: track_stage_changes_def)
qed

text \<open>What a successful UPDATE of an existing row leaves behind.\<close>

lemma update_automations_found:
  assumes "find (\<lambda>a. au_id a = i) (automations d) = Some OLD"
    and "update_automations e i set_clause d = Inr d'"
  shows "automations d'
           = replace_row i (update_updated_at_column e (set_clause OLD)) (automations d)"
    and "workflow_events d' = workflow_events d @
           (if au_stage OLD \<noteq> au_stage (set_clause OLD)
            then [stage_changed_event e OLD (update_updated_at_column e (set_clause OLD))]
            else [])"
    and "workflow_stats d' = workflow_stats d"
    and "find (\<lambda>a. au_id a = au_id (set_clause OLD)) (automations d')
           = Some (update_updated_at_column e (set_clause OLD))"
proof -
  let ?NEW = "update_updated_at_column e (set_clause OLD)"
  have id_new: "au_id ?NEW = au_id (set_clause OLD)" and st_new: "au_stage ?NEW = au_stage (set_clause OLD)"
    by (simp_all add: update_updated_at_column_def)
  from assms have ok: "au_id ?NEW = au_id OLD \<or> au_id ?NEW \<notin> set (map au_id (automations d))"
    and tr: "track_stage_changes e OLD ?NEW (d\<lparr>automations := replace_row i ?NEW (automations d)\<rparr>)
               = Inr d'"
    by (auto simp: update_automations_def Let_def split: if_splits)
  from track_stage_changes_Inr [OF tr] st_new
  show "automations d' = replace_row i ?NEW (automations d)"
    and "workflow_events d' = workflow_events d @
           (if au_stage OLD \<noteq> au_stage (set_clause OLD)
            then [stage_changed_event e OLD ?NEW] else [])"
    and "workflow_stats d' = workflow_stats d"
    by simp_all
  then have "find (\<lambda>a. au_id a = au_id ?NEW) (automations d') = Some ?NEW"
    using find_replace_row [OF assms(1), of ?NEW] ok find_id_Some [OF assms(1)]
    by auto
  then show "find (\<lambda>a. au_id a = au_id (set_clause OLD)) (automations d') = Some ?NEW"
    by (simp add: id_new)
qed

lemma update_automations_no_row:
  "find (\<lambda>a. au_id a = i) (automations d) = None \<Longrightarrow> update_automations e i set_clause d = Inr d"
  by (simp add: update_automations_def)

lemmas events_eval =
  update_automations_def update_updated_at_column_def track_stage_changes_def
  log_workflow_event_def onChangeStage_def ebind_def stage_changed_event_def
  done_db_def done_item_def

subsection \<open>One event per stage change (claim C3)\<close>

text \<open>
  Claim C3: an update of an item that changes its stage appends exactly one
  \<open>stage_changed\<close> event, whose \<open>from_stage\<close> is the stage of the item before
  the update and whose \<open>to_stage\<close> is its stage after the update; an update that
  leaves the stage as it is appends no event.  \<open>NEW\<close> below is the row of the item
  after the update.
\<close>

theorem stage_change_appends_one_event:
  assumes "find (\<lambda>a. au_id a = i) (automations d) = Some OLD"
    and "update_automations e i set_clause d = Inr d'"
  shows "\<exists>NEW. find (\<lambda>a. au_id a = au_id (set_clause OLD)) (automations d') = Some NEW
       \<and> au_stage NEW = au_stage (set_clause OLD)
       \<and> (if au_stage NEW \<noteq> au_stage OLD
          then \<exists>ev. workflow_events d' = workflow_events d @ [ev]
                 \<and> we_event_type ev = ''stage_changed''
                 \<and> we_automation_id ev = au_id NEW
                 \<and> we_from_stage ev = Some (au_stage OLD)
                 \<and> we_to_stage ev = Some (au_stage NEW)
          else workflow_events d' = workflow_events d)"
  using update_automations_found(2,4) [OF assms]
  by (auto simp: update_updated_at_column_def stage_changed_event_def)

theorem stage_change_appends_one_event_witness:
  "find (\<lambda>a. au_id a = 1) (automations done_db) = Some done_item
   \<and> (\<exists>d'. update_automations \<lparr>now = 1000, current_date = 7, gen_random_uuid = 5\<rparr> 1
              (\<lambda>a. a\<lparr>au_stage := ''New''\<rparr>) done_db = Inr d'
         \<and> (\<exists>ev. workflow_events d' = workflow_events done_db @ [ev]
              \<and> we_event_type ev = ''stage_changed''
              \<and> we_from_stage ev = Some ''Done''
              \<and> we_to_stage ev = Some ''New''))"
proof -
  let ?e = "\<lparr>now = 1000, current_date = 7, gen_random_uuid = 5\<rparr>"
  have found: "find (\<lambda>a. au_id a = 1) (automations done_db) = Some done_item"
    by (simp add: done_db_def done_item_def)
  obtain d' where run: "update_automations ?e 1 (\<lambda>a. a\<lparr>au_stage := ''New''\<rparr>) done_db = Inr d'"
    by (simp add: events_eval)
  from stage_change_appends_one_event [OF found run] found run show ?thesis
    by (auto simp: done_item_def)
qed

subsection \<open>The direction of stage changes (claim C2)\<close>

text \<open>
  A stage update of an existing item leaves the row in the stage it was given, keeps its
  \<open>assigned_worker\<close>, and appends the event of the change, if there is one.
\<close>

lemma onChangeStage_row:
  assumes "find (\<lambda>a. au_id a = i) (automations d) = Some a0"
    and "onChangeStage e i stage d = Inr d'"
  shows "\<exists>a1 evs. find (\<lambda>a. au_id a = i) (automations d') = Some a1
           \<and> au_stage a1 = stage
           \<and> au_assigned_worker a1 = au_assigned_worker a0
           \<and> workflow_events d' = workflow_events d @ evs
           \<and> map (\<lambda>ev. (we_from_stage ev, we_to_stage ev)) evs
               = map (\<lambda>p. (Some (fst p), Some (snd p))) (stage_changes [au_stage a0, stage])
           \<and> list_all (\<lambda>ev. we_event_type ev = ''stage_changed''
                  \<and> we_automation_id ev = i
                  \<and> we_worker_id ev = au_assigned_worker a0) evs"
proof -
  from assms(2) have run: "update_automations e i (\<lambda>a. a\<lparr>au_stage := stage\<rparr>) d = Inr d'"
    by (simp add: onChangeStage_def)
  from find_id_Some [OF assms(1)] have "au_id a0 = i"
    by simp
  with update_automations_found(2,4) [OF assms(1) run] show ?thesis
    by (auto simp: update_updated_at_column_def stage_changed_event_def)
qed

lemma stage_changes_Cons:
  "stage_changes (s # t # rest) = stage_changes [s, t] @ stage_changes (t # rest)"
  by simp

lemma change_stages_rows_and_events:
  assumes "find (\<lambda>a. au_id a = i) (automations d) = Some a0"
    and "change_stages steps i d = Inr d'"
  shows "stage_trace steps i d = au_stage a0 # map snd steps
       \<and> (\<exists>evs. workflow_events d' = workflow_events d @ evs
           \<and> map (\<lambda>ev. (we_from_stage ev, we_to_stage ev)) evs
               = map (\<lambda>p. (Some (fst p), Some (snd p)))
                   (stage_changes (au_stage a0 # map snd steps))
           \<and> list_all (\<lambda>ev. we_event_type ev = ''stage_changed''
                  \<and> we_automation_id ev = i
                  \<and> we_worker_id ev = au_assigned_worker a0) evs)"
  using assms
proof (induction steps arbitrary: d a0)
  case Nil
  then show ?case by (simp add: item_stage_def)
next
  case (Cons step steps)
  from Cons.prems(2) obtain d1 where
    first: "onChangeStage (fst step) i (snd step) d = Inr d1"
    and rest: "change_stages steps i d1 = Inr d'"
    by (auto simp: ebind_Inr_iff)
  from onChangeStage_row [OF Cons.prems(1) first] obtain a1 evs1 where
    a1: "find (\<lambda>a. au_id a = i) (automations d1) = Some a1" "au_stage a1 = snd step"
      "au_assigned_worker a1 = au_assigned_worker a0"
    and evs1: "workflow_events d1 = workflow_events d @ evs1"
      "map (\<lambda>ev. (we_from_stage ev, we_to_stage ev)) evs1
         = map (\<lambda>p. (Some (fst p), Some (snd p))) (stage_changes [au_stage a0, snd step])"
      "list_all (\<lambda>ev. we_event_type ev = ''stage_changed''
                  \<and> we_automation_id ev = i
                  \<and> we_worker_id ev = au_assigned_worker a0) evs1"
    by blast
  from Cons.IH [OF a1(1) rest] a1(2,3) obtain evs2 where
    trace2: "stage_trace steps i d1 = snd step # map snd steps"
    and evs2: "workflow_events d' = workflow_events d1 @ evs2"
      "map (\<lambda>ev. (we_from_stage ev, we_to_stage ev)) evs2
         = map (\<lambda>p. (Some (fst p), Some (snd p))) (stage_changes (snd step # map snd steps))"
      "list_all (\<lambda>ev. we_event_type ev = ''stage_changed''
                  \<and> we_automation_id ev = i
                  \<and> we_worker_id ev = au_assigned_worker a0) evs2"
    by auto
  have trace: "stage_trace (step # steps) i d = au_stage a0 # map snd (step # steps)"
    using Cons.prems(1) first trace2 by (simp add: item_stage_def)
  have "workflow_events d' = workflow_events d @ (evs1 @ evs2)"
    using evs1(1) evs2(1) by simp
  moreover have "map (\<lambda>ev. (we_from_stage ev, we_to_stage ev)) (evs1 @ evs2)
      = map (\<lambda>p. (Some (fst p), Some (snd p)))
          (stage_changes (au_stage a0 # map snd (step # steps)))"
    using evs1(2) evs2(2) stage_changes_Cons [of "au_stage a0" "snd step" "map snd steps"]
    by simp
  moreover have "list_all (\<lambda>ev. we_event_type ev = ''stage_changed''
                  \<and> we_automation_id ev = i
                  \<and> we_worker_id ev = au_assigned_worker a0) (evs1 @ evs2)"
    using evs1(3) evs2(3) by simp
  ultimately show ?case
    using trace by blast
qed

text \<open>Forward paths: no change goes back, and the stages visited follow the fixed order.\<close>

lemma forward_path_tail: "forward_path (s # rest) \<Longrightarrow> forward_path rest"
  by (cases rest) auto

lemma forward_path_in_STAGES: "forward_path xs \<Longrightarrow> x \<in> set xs \<Longrightarrow> x \<in> set STAGES"
  by (induction xs rule: forward_path.induct) auto

lemma forward_path_head_le:
  "forward_path (s # rest) \<Longrightarrow> x \<in> set rest \<Longrightarrow> stage_order s \<le> stage_order x"
proof (induction rest arbitrary: s)
  case Nil
  then show ?case by simp
next
  case (Cons t rest)
  from Cons.prems(1) have st: "stage_order s \<le> stage_order t" and tl: "forward_path (t # rest)"
    by auto
  from Cons.prems(2) Cons.IH [OF tl] st show ?case
    by (auto intro: order_trans)
qed

lemma forward_path_changes:
  "forward_path xs \<Longrightarrow> p \<in> set (stage_changes xs) \<Longrightarrow> stage_order (fst p) < stage_order (snd p)"
  by (induction xs rule: forward_path.induct) (auto split: if_splits)

lemma forward_path_sorted:
  "forward_path xs \<Longrightarrow> sorted_wrt (\<lambda>a b. stage_order a < stage_order b) (remdups_adj xs)"
proof (induction xs rule: forward_path.induct)
  case 1
  then show ?case by simp
next
  case (2 s)
  then show ?case by simp
next
  case (3 s t rest)
  from "3.prems" have tl: "forward_path (t # rest)" and st: "s = t \<or> stage_order s < stage_order t"
    by auto
  show ?case
  proof (cases "s = t")
    case True
    with "3.IH" tl show ?thesis by simp
  next
    case False
    with st have lt: "stage_order s < stage_order t" by simp
    have "stage_order s < stage_order x" if "x \<in> set (t # rest)" for x
      using that lt forward_path_head_le [OF tl, of x] by auto
    with False "3.IH" tl show ?thesis
      by simp
  qed
qed

lemma sorted_wrt_subseq:
  assumes "sorted_wrt R xs" and "sorted_wrt R ys" and "set xs \<subseteq> set ys"
    and "\<And>a. \<not> R a a" and "\<And>a b c. R a b \<Longrightarrow> R b c \<Longrightarrow> R a c"
  shows "subseq xs ys"
  using assms(1-3)
proof (induction ys arbitrary: xs)
  case Nil
  then show ?case by simp
next
  case (Cons y ys)
  show ?case
  proof (cases xs)
    case Nil
    then show ?thesis by simp
  next
    case (Cons x xs')
    show ?thesis
    proof (cases "x = y")
      case True
      from Cons.prems(1) Cons have "\<forall>z \<in> set xs'. R y z" and s': "sorted_wrt R xs'"
        using True by auto
      with assms(4) have "y \<notin> set xs'" by auto
      with Cons.prems(3) Cons have "set xs' \<subseteq> set ys" by auto
      from Cons.IH [OF s' _ this] Cons.prems(2) have "subseq xs' ys" by simp
      with True Cons show ?thesis by simp
    next
      case False
      with Cons.prems(3) Cons have "x \<in> set ys" by auto
      with Cons.prems(2) have yx: "R y x" by auto
      have "\<forall>z \<in> set xs'. R x z" using Cons.prems(1) Cons by auto
      with yx assms(5) have "\<forall>z \<in> set xs. R y z" using Cons by auto
      with assms(4) have "y \<notin> set xs" by auto
      with Cons.prems(3) have "set xs \<subseteq> set ys" by auto
      from Cons.IH [OF Cons.prems(1) _ this] Cons.prems(2) have "subseq xs ys" by simp
      then show ?thesis by (rule list_emb_Cons)
    qed
  qed
qed

lemma STAGES_sorted: "sorted_wrt (\<lambda>a b. stage_order a < stage_order b) STAGES"
  by (simp add: STAGES_def stage_order_def)

lemma forward_path_subseq: "forward_path xs \<Longrightarrow> subseq (remdups_adj xs) STAGES"
proof (rule sorted_wrt_subseq [where R = "\<lambda>a b. stage_order a < stage_order b"])
  assume fp: "forward_path xs"
  show "sorted_wrt (\<lambda>a b. stage_order a < stage_order b) (remdups_adj xs)"
    by (rule forward_path_sorted [OF fp])
  show "sorted_wrt (\<lambda>a b. stage_order a < stage_order b) STAGES"
    by (rule STAGES_sorted)
  show "set (remdups_adj xs) \<subseteq> set STAGES"
    using forward_path_in_STAGES [OF fp] by auto
qed auto

text \<open>
  Claim C2, as stated: the stages an item visits follow the forward order New,
  Classification, Data Extraction, Processing, Done, and no \<open>stage_changed\<close> event
  has a \<open>to_stage\<close> earlier than its \<open>from_stage\<close>, except events tagged with an
  administrative worker id.  The stage update of the pipeline page moves an unassigned
  item from Done back to New; the trigger records the move with a NULL \<open>worker_id\<close>.
\<close>

theorem backward_change_recorded:
  "onChangeStage \<lparr>now = 1000, current_date = 7, gen_random_uuid = 5\<rparr> 1 ''New'' done_db
     = Inr \<lparr>automations = [done_item\<lparr>au_stage := ''New'', au_updated_at := 1000\<rparr>],
            workflow_events =
              [\<lparr>we_id = 5, we_automation_id = 1, we_event_type = ''stage_changed'',
                we_from_stage = Some ''Done'', we_to_stage = Some ''New'',
                we_worker_id = None,
                we_metadata = Some (JObject [(''previous_updated_at'', JTimestamp 900),
                                             (''new_updated_at'', JTimestamp 1000)]),
                we_error_message = None, we_created_at = 1000\<rparr>],
            workflow_stats = []\<rparr>
   \<and> is_backward
       \<lparr>we_id = 5, we_automation_id = 1, we_event_type = ''stage_changed'',
        we_from_stage = Some ''Done'', we_to_stage = Some ''New'',
        we_worker_id = None,
        we_metadata = Some (JObject [(''previous_updated_at'', JTimestamp 900),
                                     (''new_updated_at'', JTimestamp 1000)]),
        we_error_message = None, we_created_at = 1000\<rparr>
   \<and> \<not> subseq [''Done'', ''New''] STAGES"
  by (simp add: events_eval is_backward_def stage_order_def STAGES_def)

text \<open>
  Claim C2, amended: a series of stage updates of an item puts its row through the stages
  it is given, and appends, in order, one \<open>stage_changed\<close> event for every change
  of the row's stage, in either direction: \<open>from_stage\<close> and \<open>to_stage\<close> are
  the stages of the row before and after the change, \<open>worker_id\<close> is the
  \<open>assigned_worker\<close> of the row (NULL for an unassigned item), whoever made the
  update.  When every update keeps the stage or moves the item to a later one
  of the five stages, no event records a backward move and the stages the row goes
  through are a subsequence of the fixed forward order.  Nothing in the schema, the
  trigger or the page enforces that premise.
\<close>

theorem stage_changes_recorded_in_order:
  assumes "find (\<lambda>a. au_id a = i) (automations d) = Some a0"
    and "change_stages steps i d = Inr d'"
  shows "stage_trace steps i d = au_stage a0 # map snd steps
       \<and> (\<exists>evs. workflow_events d' = workflow_events d @ evs
           \<and> map (\<lambda>ev. (we_from_stage ev, we_to_stage ev)) evs
               = map (\<lambda>p. (Some (fst p), Some (snd p))) (stage_changes (stage_trace steps i d))
           \<and> list_all (\<lambda>ev. we_event_type ev = ''stage_changed''
                  \<and> we_automation_id ev = i
                  \<and> we_worker_id ev = au_assigned_worker a0) evs
           \<and> (forward_path (au_stage a0 # map snd steps) \<longrightarrow>
                 list_all (\<lambda>ev. \<not> is_backward ev) evs
               \<and> subseq (remdups_adj (stage_trace steps i d)) STAGES))"
proof -
  from change_stages_rows_and_events [OF assms] obtain evs where
    trace: "stage_trace steps i d = au_stage a0 # map snd steps"
    and ev: "workflow_events d' = workflow_events d @ evs"
    and tr: "map (\<lambda>ev. (we_from_stage ev, we_to_stage ev)) evs
               = map (\<lambda>p. (Some (fst p), Some (snd p)))
                   (stage_changes (au_stage a0 # map snd steps))"
    and tags: "list_all (\<lambda>ev. we_event_type ev = ''stage_changed''
                  \<and> we_automation_id ev = i
                  \<and> we_worker_id ev = au_assigned_worker a0) evs"
    by blast
  have fwd: "list_all (\<lambda>ev. \<not> is_backward ev) evs
      \<and> subseq (remdups_adj (stage_trace steps i d)) STAGES"
    if fp: "forward_path (au_stage a0 # map snd steps)"
  proof -
    have "\<not> is_backward x" if "x \<in> set evs" for x
    proof -
      from that have "(we_from_stage x, we_to_stage x)
          \<in> set (map (\<lambda>ev. (we_from_stage ev, we_to_stage ev)) evs)"
        by (simp add: image_iff) blast
      with tr obtain p where p: "p \<in> set (stage_changes (au_stage a0 # map snd steps))"
        and "we_from_stage x = Some (fst p)" "we_to_stage x = Some (snd p)"
        by auto
      with forward_path_changes [OF fp p] show ?thesis
        by (simp add: is_backward_def)
    qed
    then have "list_all (\<lambda>ev. \<not> is_backward ev) evs"
      by (simp add: list_all_iff)
    with forward_path_subseq [OF fp] trace show ?thesis
      by simp
  qed
  from trace ev tr tags fwd show ?thesis
    by auto
qed

theorem stage_changes_recorded_in_order_witness:
  "find (\<lambda>a. au_id a = 1) (automations held_db) = Some held_item
   \<and> forward_path (au_stage held_item # map snd forward_steps)
   \<and> stage_trace forward_steps 1 held_db = [''New'', ''Classification'', ''Data Extraction'']
   \<and> (\<exists>d'. change_stages forward_steps 1 held_db = Inr d'
         \<and> map (\<lambda>ev. (we_from_stage ev, we_to_stage ev, we_worker_id ev)) (workflow_events d')
             = [(Some ''New'', Some ''Classification'', Some ''classifier-1''),
                (Some ''Classification'', Some ''Data Extraction'', Some ''classifier-1'')]
         \<and> list_all (\<lambda>ev. \<not> is_backward ev) (workflow_events d'))
   \<and> subseq [''New'', ''Classification'', ''Data Extraction''] STAGES"
proof -
  have found: "find (\<lambda>a. au_id a = 1) (automations held_db) = Some held_item"
    by (simp add: held_db_def held_item_def new_item_def)
  have fwd: "forward_path (au_stage held_item # map snd forward_steps)"
    by (simp add: held_item_def new_item_def forward_steps_def STAGES_def stage_order_def)
  obtain d' where run: "change_stages forward_steps 1 held_db = Inr d'"
    by (simp add: forward_steps_def events_eval held_db_def held_item_def new_item_def)
  have path: "au_stage held_item # map snd forward_steps
      = [''New'', ''Classification'', ''Data Extraction'']"
    and none: "workflow_events held_db = []"
    and worker: "au_assigned_worker held_item = Some ''classifier-1''"
    by (simp_all add: held_item_def new_item_def forward_steps_def held_db_def)
  from stage_changes_recorded_in_order [OF found run] fwd
  obtain evs where trace: "stage_trace forward_steps 1 held_db
        = [''New'', ''Classification'', ''Data Extraction'']"
    and ev: "workflow_events d' = evs"
    and tr: "map (\<lambda>ev. (we_from_stage ev, we_to_stage ev)) evs
        = [(Some ''New'', Some ''Classification''),
           (Some ''Classification'', Some ''Data Extraction'')]"
    and tags: "list_all (\<lambda>ev. we_worker_id ev = Some ''classifier-1'') evs"
    and ok: "list_all (\<lambda>ev. \<not> is_backward ev) evs"
      "subseq [''New'', ''Classification'', ''Data Extraction''] STAGES"
    unfolding path none worker by (auto simp: list_all_iff)
  from tr tags obtain e1 e2 where evs: "evs = [e1, e2]"
    by (cases evs; cases "tl evs"; cases "tl (tl evs)") auto
  with tr tags have "map (\<lambda>ev. (we_from_stage ev, we_to_stage ev, we_worker_id ev)) evs
      = [(Some ''New'', Some ''Classification'', Some ''classifier-1''),
         (Some ''Classification'', Some ''Data Extraction'', Some ''classifier-1'')]"
    by simp
  with found fwd trace run ev ok show ?thesis
    by auto
qed


section \<open>The view recent_workflow_activity (claim C9)\<close>

lemma filter_unique_id:
  assumes "distinct (map au_id rows)" and "i \<in> set (map au_id rows)"
  shows "\<exists>a. find (\<lambda>a. au_id a = i) rows = Some a \<and> filter (\<lambda>a. i = au_id a) rows = [a]"
  using assms
proof (induction rows)
  case Nil
  then show ?case by simp
next
  case (Cons a rows)
  show ?case
  proof (cases "au_id a = i")
    case True
    with Cons.prems(1) have "filter (\<lambda>a. i = au_id a) rows = []"
      by (auto simp: filter_empty_conv)
    with True show ?thesis by simp
  next
    case False
    with Cons show ?thesis by auto
  qed
qed

lemma insort_key_map:
  "insort_key k (g x) (map g ys) = map g (insort_key (\<lambda>y. k (g y)) x ys)"
  by (induction ys) simp_all

lemma sort_key_map:
  "sort_key k (map g xs) = map g (sort_key (\<lambda>y. k (g y)) xs)"
  by (induction xs) (simp_all add: insort_key_map)

lemma join_as_map:
  assumes "distinct (map au_id rows)"
    and "list_all (\<lambda>we. we_automation_id we \<in> set (map au_id rows)) evs"
  shows "concat (map (\<lambda>we. map (activity_row we)
                          (filter (\<lambda>a. we_automation_id we = au_id a) rows)) evs)
       = map (\<lambda>we. activity_row we (the (find (\<lambda>a. au_id a = we_automation_id we) rows))) evs"
  using assms(2)
proof (induction evs)
  case Nil
  then show ?case by simp
next
  case (Cons we evs)
  from Cons.prems have "we_automation_id we \<in> set (map au_id rows)"
    by simp
  from filter_unique_id [OF assms(1) this] obtain a where
    "find (\<lambda>a. au_id a = we_automation_id we) rows = Some a"
    "filter (\<lambda>a. we_automation_id we = au_id a) rows = [a]"
    by blast
  with Cons show ?case by simp
qed

lemma sorted_take_drop:
  assumes "sorted (map k xs)"
  shows "\<forall>x \<in> set (take n xs). \<forall>y \<in> set (drop n xs). k x \<le> k y"
proof -
  from assms have "sorted_wrt (\<lambda>x y. k x \<le> k y) (take n xs @ drop n xs)"
    by (simp add: sorted_map)
  then show ?thesis
    unfolding sorted_wrt_append by blast
qed

text \<open>
  Claim C9: the read path of the event log returns the most recent \<open>N = 100\<close> events,
  newest first by \<open>created_at\<close>, each joined with the title of the item it refers
  to.  Under the key constraints of the schema the rows of the view are, one for one and
  in order, the events \<open>shown\<close>: these are \<open>min 100\<close> of the number of events,
  in descending order of \<open>created_at\<close>, and no event left out is more recent than
  an event shown.  A row carries the columns of its event and the id and the title of
  the automation the event references.
\<close>

theorem recent_activity_newest_100:
  assumes "keys_ok d"
  shows "\<exists>shown rest.
           mset shown + mset rest = mset (workflow_events d)
         \<and> length shown = min 100 (length (workflow_events d))
         \<and> sorted_wrt (\<lambda>x y. we_created_at y \<le> we_created_at x) shown
         \<and> (\<forall>x \<in> set shown. \<forall>y \<in> set rest. we_created_at y \<le> we_created_at x)
         \<and> list_all2
             (\<lambda>r we. \<exists>a. find (\<lambda>a. au_id a = we_automation_id we) (automations d) = Some a
                \<and> ra_automation_title r = au_title a
                \<and> ra_automation_id r = we_automation_id we
                \<and> ra_created_at r = we_created_at we
                \<and> ra_event_type r = we_event_type we
                \<and> ra_from_stage r = we_from_stage we
                \<and> ra_to_stage r = we_to_stage we
                \<and> ra_worker_id r = we_worker_id we
                \<and> ra_error_message r = we_error_message we)
             (recent_workflow_activity d) shown"
proof -
  let ?g = "\<lambda>we. activity_row we
      (the (find (\<lambda>a. au_id a = we_automation_id we) (automations d)))"
  let ?k = "\<lambda>we. - we_created_at we"
  let ?ys = "sort_key ?k (workflow_events d)"
  let ?shown = "take 100 ?ys" and ?rest = "drop 100 ?ys"
  from assms have ids: "distinct (map au_id (automations d))"
    and refs: "list_all (\<lambda>we. we_automation_id we \<in> set (map au_id (automations d)))
      (workflow_events d)"
    by (simp_all add: keys_ok_def)
  have join: "events_join_automations d = map ?g (workflow_events d)"
    unfolding events_join_automations_def by (rule join_as_map [OF ids refs])
  have key: "(\<lambda>we. - ra_created_at (?g we)) = ?k"
    by (simp add: activity_row_def)
  have view: "recent_workflow_activity d = map ?g ?shown"
    by (simp add: recent_workflow_activity_def join sort_key_map key take_map)
  have sorted: "sorted (map ?k ?ys)"
    by (rule sorted_sort_key)
  have "mset ?shown + mset ?rest = mset ?ys"
    by (metis append_take_drop_id mset_append)
  then have perm: "mset ?shown + mset ?rest = mset (workflow_events d)"
    by simp
  have len: "length ?shown = min 100 (length (workflow_events d))"
    by (simp add: min.commute)
  have desc: "sorted_wrt (\<lambda>x y. we_created_at y \<le> we_created_at x) ?shown"
  proof -
    from sorted have "sorted_wrt (\<lambda>x y. ?k x \<le> ?k y) ?ys"
      by (simp add: sorted_map)
    then have "sorted_wrt (\<lambda>x y. ?k x \<le> ?k y) ?shown"
      by (rule sorted_wrt_take)
    then show ?thesis by simp
  qed
  have newest: "\<forall>x \<in> set ?shown. \<forall>y \<in> set ?rest. we_created_at y \<le> we_created_at x"
    using sorted_take_drop [OF sorted, of 100] by simp
  have rows: "list_all2
      (\<lambda>r we. \<exists>a. find (\<lambda>a. au_id a = we_automation_id we) (automations d) = Some a
         \<and> ra_automation_title r = au_title a
         \<and> ra_automation_id r = we_automation_id we
         \<and> ra_created_at r = we_created_at we
         \<and> ra_event_type r = we_event_type we
         \<and> ra_from_stage r = we_from_stage we
         \<and> ra_to_stage r = we_to_stage we
         \<and> ra_worker_id r = we_worker_id we
         \<and> ra_error_message r = we_error_message we)
      (recent_workflow_activity d) ?shown"
    unfolding view list_all2_map1
  proof (rule list_all2_same [THEN iffD2], intro ballI)
    fix we assume "we \<in> set ?shown"
    then have "we \<in> set (workflow_events d)"
      using in_set_takeD [of we 100 ?ys] by simp
    with refs have "we_automation_id we \<in> set (map au_id (automations d))"
      by (simp add: list_all_iff)
    from filter_unique_id [OF ids this] obtain a where
      a: "find (\<lambda>a. au_id a = we_automation_id we) (automations d) = Some a"
      by blast
    from find_id_Some [OF a] have "au_id a = we_automation_id we"
      by simp
    with a show "\<exists>a. find (\<lambda>a. au_id a = we_automation_id we) (automations d) = Some a
         \<and> ra_automation_title (?g we) = au_title a
         \<and> ra_automation_id (?g we) = we_automation_id we
         \<and> ra_created_at (?g we) = we_created_at we
         \<and> ra_event_type (?g we) = we_event_type we
         \<and> ra_from_stage (?g we) = we_from_stage we
         \<and> ra_to_stage (?g we) = we_to_stage we
         \<and> ra_worker_id (?g we) = we_worker_id we
         \<and> ra_error_message (?g we) = we_error_message we"
      by (simp add: activity_row_def)
  qed
  from perm len desc newest rows show ?thesis
    by blast
qed

lemma busy_keys: "keys_ok busy_db"
  by code_simp

lemma busy_view:
  "map (\<lambda>r. (ra_created_at r, ra_automation_id r, ra_automation_title r))
     (recent_workflow_activity busy_db)
   = map (\<lambda>n. (int n, if n mod 2 = 0 then 2 else 1,
                 if n mod 2 = 0 then ''Claim-B'' else ''Invoice-A'')) (rev [2..<102])"
  by code_simp

theorem recent_activity_newest_100_witness:
  "keys_ok busy_db
   \<and> length (workflow_events busy_db) = 102
   \<and> length (recent_workflow_activity busy_db) = 100
   \<and> map (\<lambda>r. (ra_created_at r, ra_automation_id r, ra_automation_title r))
       (recent_workflow_activity busy_db)
     = map (\<lambda>n. (int n, if n mod 2 = 0 then 2 else 1,
                   if n mod 2 = 0 then ''Claim-B'' else ''Invoice-A'')) (rev [2..<102])"
proof -
  have events: "length (workflow_events busy_db) = 102"
    by (simp add: busy_db_def)
  from recent_activity_newest_100 [OF busy_keys] obtain shown
    and P :: "activity \<Rightarrow> workflow_event \<Rightarrow> bool" where
    shown: "length shown = min 100 (length (workflow_events busy_db))"
    and rows: "list_all2 P (recent_workflow_activity busy_db) shown"
    by blast
  from rows have "length (recent_workflow_activity busy_db) = length shown"
    by (rule list_all2_lengthD)
  with shown events have "length (recent_workflow_activity busy_db) = 100"
    by simp
  with busy_keys events busy_view show ?thesis
    by simp
qed

section \<open>Properties of the item store of the specification\<close>

subsection \<open>claimNext serves the oldest unclaimed item (claim C6)\<close>

lemma older_or_same_refl: "older_or_same a a"
  by (simp add: older_or_same_def)

lemma older_or_same_total: "\<not> older_or_same a b \<Longrightarrow> older_or_same b a"
  by (auto simp: older_or_same_def)

lemma older_or_same_trans: "older_or_same a b \<Longrightarrow> older_or_same b c \<Longrightarrow> older_or_same a c"
  by (auto simp: older_or_same_def)

lemma oldest_None_iff: "oldest xs = None \<longleftrightarrow> xs = []"
  by (induction xs) (auto split: option.splits)

lemma oldest_Some:
  "oldest xs = Some a \<Longrightarrow> a \<in> set xs \<and> (\<forall>b \<in> set xs. older_or_same a b)"
proof (induction xs arbitrary: a)
  case Nil
  then show ?case by simp
next
  case (Cons x xs)
  show ?case
  proof (cases "oldest xs")
    case None
    with Cons.prems oldest_None_iff [of xs] show ?thesis
      by (simp add: older_or_same_refl)
  next
    case (Some b)
    from Cons.IH [OF Some] have b: "b \<in> set xs" "\<forall>c \<in> set xs. older_or_same b c"
      by simp_all
    show ?thesis
    proof (cases "older_or_same x b")
      case True
      with Some Cons.prems have "a = x" by simp
      with True b show ?thesis
        by (auto intro: older_or_same_refl older_or_same_trans)
    next
      case False
      with Some Cons.prems have "a = b" by simp
      with False b show ?thesis
        by (auto intro: older_or_same_total)
    qed
  qed
qed

text \<open>
  Claim C6: \<open>claimNext(stage, workerId)\<close> selects the oldest unclaimed item of the
  stage in creation-time order, ties broken by id; on a stage without unclaimed items it
  returns none and leaves the state as it is.  The operation returns a value in every
  state: it has no error result.
\<close>

theorem claimNext_oldest_unclaimed:
  "(if filter (unclaimed_in stage) (automations d) = []
    then claimNext e stage workerId d = (None, d)
    else \<exists>a. a \<in> set (automations d)
           \<and> au_stage a = stage \<and> au_assigned_worker a = None
           \<and> (\<forall>b \<in> set (automations d).
                 au_stage b = stage \<and> au_assigned_worker b = None \<longrightarrow>
                   au_created_at a < au_created_at b
                 \<or> (au_created_at a = au_created_at b \<and> au_id a \<le> au_id b))
           \<and> claimNext e stage workerId d =
               (Some (a\<lparr>au_assigned_worker := Some workerId,
                        au_processing_started_at := Some (now e)\<rparr>),
                d\<lparr>automations :=
                    replace_row (au_id a)
                      (a\<lparr>au_assigned_worker := Some workerId,
                         au_processing_started_at := Some (now e)\<rparr>)
                      (automations d)\<rparr>))"
proof (cases "filter (unclaimed_in stage) (automations d) = []")
  case True
  then show ?thesis
    by (simp add: claimNext_def)
next
  case False
  then obtain a where a: "oldest (filter (unclaimed_in stage) (automations d)) = Some a"
    using oldest_None_iff [of "filter (unclaimed_in stage) (automations d)"] by auto
  from oldest_Some [OF a] have "a \<in> set (automations d)" "unclaimed_in stage a"
    and "\<forall>b \<in> set (automations d). unclaimed_in stage b \<longrightarrow> older_or_same a b"
    by auto
  with a False show ?thesis
    by (auto simp: claimNext_def unclaimed_in_def older_or_same_def Let_def intro!: exI [of _ a])
qed

lemmas store_eval =
  claimNext_def unclaimed_in_def older_or_same_def transition_def recordFailure_def
  manualTransition_def append_event_def merge_result_fields_def merge_field_def
  committed_def log_workflow_event_def stage_order_def queue_db_def new_item_def

theorem claimNext_oldest_unclaimed_witness:
  "filter (unclaimed_in ''New'') (automations queue_db) \<noteq> []
   \<and> fst (claimNext \<lparr>now = 200, current_date = 7, gen_random_uuid = 20\<rparr> ''New'' ''w1'' queue_db)
       = Some (new_item\<lparr>au_id := 1, au_created_at := 100, au_assigned_worker := Some ''w1'',
                         au_processing_started_at := Some 200\<rparr>)
   \<and> filter (unclaimed_in ''Done'') (automations queue_db) = []
   \<and> claimNext \<lparr>now = 200, current_date = 7, gen_random_uuid = 20\<rparr> ''Done'' ''w1'' queue_db
       = (None, queue_db)"
proof -
  let ?e = "\<lparr>now = 200, current_date = 7, gen_random_uuid = 20\<rparr>"
  have queue: "filter (unclaimed_in ''New'') (automations queue_db) \<noteq> []"
    and empty: "filter (unclaimed_in ''Done'') (automations queue_db) = []"
    by (simp_all add: store_eval)
  have first: "fst (claimNext ?e ''New'' ''w1'' queue_db)
       = Some (new_item\<lparr>au_id := 1, au_created_at := 100, au_assigned_worker := Some ''w1'',
                         au_processing_started_at := Some 200\<rparr>)"
    by (simp add: store_eval Let_def)
  from claimNext_oldest_unclaimed [of "''Done''" queue_db ?e "''w1''"] empty
  have "claimNext ?e ''Done'' ''w1'' queue_db = (None, queue_db)"
    by simp
  with queue empty first show ?thesis
    by simp
qed

subsection \<open>Events are only appended, items are never deleted (claim C5)\<close>

lemma prefix_committed:
  assumes "\<And>d'. r = Inr d' \<Longrightarrow> prefix (workflow_events d) (workflow_events d')
             \<and> map au_id (automations d') = map au_id (automations d)"
  shows "prefix (workflow_events d) (workflow_events (committed d r))
       \<and> map au_id (automations (committed d r)) = map au_id (automations d)"
  using assms by (cases r) (simp_all add: committed_def)

lemma append_event_Inr:
  assumes "append_event e i t f s w x d = Inr d'"
  shows "(\<exists>ev. workflow_events d' = workflow_events d @ [ev])
       \<and> automations d' = automations d"
  using assms
  by (auto simp: append_event_def split: sum.splits dest: log_workflow_event_Inr(2))

lemma exec_append_only:
  "prefix (workflow_events d) (workflow_events (exec e op d))
   \<and> map au_id (automations (exec e op d)) = map au_id (automations d)"
proof (cases op)
  case (ClaimNext stage workerId)
  then show ?thesis
    by (auto simp: claimNext_def Let_def replace_row_ids split: option.splits)
next
  case (Transition i fromStage toStage workerId rf)
  have "prefix (workflow_events d) (workflow_events d')
      \<and> map au_id (automations d') = map au_id (automations d)"
    if "transition e i fromStage toStage workerId rf d = Inr d'" for d'
  proof -
    from that obtain a where a: "find (\<lambda>a. au_id a = i) (automations d) = Some a"
      by (auto simp: transition_def split: option.splits)
    from find_id_Some [OF a] have "au_id a = i" by simp
    with that a show ?thesis
      by (auto simp: transition_def Let_def merge_result_fields_def replace_row_ids
          split: if_splits dest!: append_event_Inr)
  qed
  with Transition show ?thesis
    by (simp add: prefix_committed)
next
  case (RecordFailure i workerId errorText)
  have "prefix (workflow_events d) (workflow_events d')
      \<and> map au_id (automations d') = map au_id (automations d)"
    if "recordFailure e i workerId errorText d = Inr d'" for d'
  proof -
    from that obtain a where a: "find (\<lambda>a. au_id a = i) (automations d) = Some a"
      by (auto simp: recordFailure_def split: option.splits)
    from find_id_Some [OF a] have "au_id a = i" by simp
    with that a show ?thesis
      by (auto simp: recordFailure_def Let_def replace_row_ids
          split: if_splits dest!: append_event_Inr)
  qed
  with RecordFailure show ?thesis
    by (simp add: prefix_committed)
next
  case (ManualTransition i toStage operatorTag)
  have "prefix (workflow_events d) (workflow_events d')
      \<and> map au_id (automations d') = map au_id (automations d)"
    if "manualTransition e i toStage operatorTag d = Inr d'" for d'
  proof -
    from that obtain a where a: "find (\<lambda>a. au_id a = i) (automations d) = Some a"
      by (auto simp: manualTransition_def split: option.splits)
    from find_id_Some [OF a] have "au_id a = i" by simp
    with that a show ?thesis
      by (auto simp: manualTransition_def Let_def replace_row_ids
          split: if_splits dest!: append_event_Inr)
  qed
  with ManualTransition show ?thesis
    by (simp add: prefix_committed)
next
  case (ChangeStage i stage)
  have "prefix (workflow_events d) (workflow_events d')
      \<and> map au_id (automations d') = map au_id (automations d)"
    if run: "onChangeStage e i stage d = Inr d'" for d'
  proof (cases "find (\<lambda>a. au_id a = i) (automations d)")
    case None
    with run show ?thesis
      by (simp add: onChangeStage_def update_automations_def)
  next
    case (Some a)
    from run have upd: "update_automations e i (\<lambda>a. a\<lparr>au_stage := stage\<rparr>) d = Inr d'"
      by (simp add: onChangeStage_def)
    from find_id_Some [OF Some] have "au_id a = i" by simp
    with update_automations_found(1,2) [OF Some upd] show ?thesis
      by (simp add: update_updated_at_column_def replace_row_ids)
  qed
  with ChangeStage show ?thesis
    by (simp add: prefix_committed)
next
  case (LogEvent i t f s w m x)
  have "prefix (workflow_events d) (workflow_events d')
      \<and> map au_id (automations d') = map au_id (automations d)"
    if "ebind (log_workflow_event e i t f s w m x d) (\<lambda>r. Inr (snd r)) = Inr d'" for d'
    using that by (auto simp: ebind_Inr_iff dest!: log_workflow_event_Inr(2))
  with LogEvent show ?thesis
    by (simp add: prefix_committed)
next
  case (RecordStats stage seconds success)
  have "prefix (workflow_events d) (workflow_events d')
      \<and> map au_id (automations d') = map au_id (automations d)"
    if "update_workflow_stats e stage seconds success d = Inr d'" for d'
    using that by (auto simp: update_workflow_stats_def Let_def ebind_Inr_iff split: if_splits)
  with RecordStats show ?thesis
    by (simp add: prefix_committed)
qed

text \<open>
  Claim C5: the event log is append-only and the core never deletes an item.  Through
  any series of core operations (claim, transition, failure record, manual override, and
  the statements of the schema) the events present before are still there, unchanged and
  in their place, and the table of items holds the same ids.  Deleting an item is not
  among these operations; the schema lets such a delete remove the item's events
  (\<open>ON DELETE CASCADE\<close>).
\<close>

theorem core_operations_append_only:
  "prefix (workflow_events d) (workflow_events (run steps d))
   \<and> map au_id (automations (run steps d)) = map au_id (automations d)"
proof (induction steps arbitrary: d)
  case Nil
  then show ?case by simp
next
  case (Cons step steps)
  from exec_append_only [of d "fst step" "snd step"] Cons.IH [of "exec (fst step) (snd step) d"]
  show ?case
    by (auto intro: prefix_order.order_trans)
qed

theorem core_operations_append_only_witness:
  "map we_event_type (workflow_events (run example_steps queue_db))
     = [''error_occurred'', ''stage_changed'', ''stage_changed'']
   \<and> map we_worker_id (workflow_events (run example_steps queue_db))
     = [Some ''w1'', Some ''w1'', Some ''admin'']
   \<and> prefix (workflow_events queue_db) (workflow_events (run example_steps queue_db))
   \<and> map au_id (automations (run example_steps queue_db)) = [3, 2, 1, 4]"
proof -
  have events: "map we_event_type (workflow_events (run example_steps queue_db))
      = [''error_occurred'', ''stage_changed'', ''stage_changed'']"
    "map we_worker_id (workflow_events (run example_steps queue_db))
      = [Some ''w1'', Some ''w1'', Some ''admin'']"
    by (simp_all add: example_steps_def store_eval stats_eval Let_def)
  have ids: "map au_id (automations queue_db) = [3, 2, 1, 4]"
    by (simp add: queue_db_def new_item_def)
  from core_operations_append_only [of queue_db example_steps] events ids show ?thesis
    by simp
qed


end
